theory Spec2Isabelle
  imports Complex_Main "HOL-Library.AList" "HOL-Library.Product_Lexorder"
begin

section \<open>Data model of the spiral piano (src/v25.py)\<close>

text \<open>
  Python floats are modelled as exact reals: the theorems below are about the formulas
  the program evaluates, not about rounding.  Calls that only paint (canvas draws,
  blits, the title, prints) are left out; everything the handlers store is kept.
\<close>

datatype py_error = KeyError | IndexError | ValueError | ZeroDivisionError | OverflowError

type_synonym note_key = "nat \<times> nat"

text \<open>The part of a Matplotlib \<open>Line2D\<close> the handlers write: its radial data, alpha and
  visibility.  Its angular data is set once (to \<open>base_theta\<close>) and never written again.\<close>

record line2d =
  ydata :: "real list"
  alpha :: real
  visible :: bool

text \<open>One value of the dictionary \<open>notes_data\<close>.\<close>

record note_data =
  line :: line2d
  highlighted :: bool
  name :: string
  base_theta :: "real list"
  base_r :: "real list"

section \<open>Geometry: \<open>_draw_notes_segments\<close>\<close>

definition b_const :: real where
  "b_const = ln 2 / (2 * pi)"

definition total_start_theta :: "nat \<Rightarrow> nat \<Rightarrow> real" where
  "total_start_theta octave_idx semitone_idx =
     real octave_idx * 2 * pi + real semitone_idx * (2 * pi / 12)"

definition total_end_theta :: "nat \<Rightarrow> nat \<Rightarrow> real" where
  "total_end_theta octave_idx semitone_idx =
     real octave_idx * 2 * pi + (real semitone_idx + 1) * (2 * pi / 12)"

text \<open>\<open>np.linspace(start, stop, num)\<close> for \<open>num \<ge> 2\<close>: \<open>num\<close> evenly spaced samples,
  both ends included.\<close>

definition linspace :: "real \<Rightarrow> real \<Rightarrow> nat \<Rightarrow> real list" where
  "linspace start stop num =
     map (\<lambda>i. start + real i * ((stop - start) / real (num - 1))) [0..<num]"

definition num_points_in_segment :: nat where
  "num_points_in_segment = 30"

definition segment_theta :: "nat \<Rightarrow> nat \<Rightarrow> real list" where
  "segment_theta octave_idx semitone_idx =
     linspace (total_start_theta octave_idx semitone_idx)
       (total_end_theta octave_idx semitone_idx) num_points_in_segment"

definition segment_r :: "nat \<Rightarrow> nat \<Rightarrow> real list" where
  "segment_r octave_idx semitone_idx =
     map (\<lambda>\<theta>. exp (b_const * \<theta>)) (segment_theta octave_idx semitone_idx)"

definition semitone_names :: "string list" where
  "semitone_names =
     [''C'', ''C#'', ''D'', ''D#'', ''E'', ''F'', ''F#'', ''G'', ''G#'', ''A'', ''A#'', ''B'']"

text \<open>Decimal digits of a natural number, as Python's f-string prints an int.\<close>

fun str_nat :: "nat \<Rightarrow> string" where
  "str_nat n =
     (if n < 10 then [''0123456789'' ! n]
      else str_nat (n div 10) @ [''0123456789'' ! (n mod 10)])"

declare str_nat.simps [simp del]

definition get_note_name :: "nat \<Rightarrow> nat \<Rightarrow> py_error + string" where
  "get_note_name octave_idx semitone_idx =
     (if semitone_idx < length semitone_names
      then Inr (semitone_names ! semitone_idx @ str_nat (octave_idx + 1))
      else Inl IndexError)"

text \<open>The dictionary entry the inner loop body stores for one key: the line is plotted
  with the segment's radii, alpha 0, and then hidden.\<close>

definition new_note :: "nat \<Rightarrow> nat \<Rightarrow> string \<Rightarrow> note_data" where
  "new_note octave_idx semitone_idx note_name =
     \<lparr>line = \<lparr>ydata = segment_r octave_idx semitone_idx, alpha = 0, visible = False\<rparr>,
      highlighted = False,
      name = note_name,
      base_theta = segment_theta octave_idx semitone_idx,
      base_r = segment_r octave_idx semitone_idx\<rparr>"

text \<open>The two nested \<open>for\<close> loops, as one loop over the keys in the order the loops visit
  them; \<open>AList.update\<close> is the dictionary assignment (a new key goes last).\<close>

fun draw_loop ::
  "note_key list \<Rightarrow> (note_key \<times> note_data) list \<Rightarrow> py_error + (note_key \<times> note_data) list"
where
  "draw_loop [] nd = Inr nd"
| "draw_loop ((octave_idx, semitone_idx) # ks) nd =
     (case get_note_name octave_idx semitone_idx of
        Inl e \<Rightarrow> Inl e
      | Inr note_name \<Rightarrow>
          draw_loop ks
            (AList.update (octave_idx, semitone_idx)
               (new_note octave_idx semitone_idx note_name) nd))"

definition note_keys :: "nat \<Rightarrow> note_key list" where
  "note_keys n = List.product [0..<n] [0..<12]"

definition draw_notes_segments :: "nat \<Rightarrow> py_error + (note_key \<times> note_data) list" where
  "draw_notes_segments n = draw_loop (note_keys n) []"

section \<open>The status summary: \<open>_update_status_display\<close>\<close>

text \<open>\<open>list.index\<close>: the first position of a value, or \<open>ValueError\<close>.\<close>

fun index_of :: "'a list \<Rightarrow> 'a \<Rightarrow> py_error + nat" where
  "index_of [] x = Inl ValueError"
| "index_of (y # ys) x =
     (if y = x then Inr 0
      else (case index_of ys x of Inl e \<Rightarrow> Inl e | Inr i \<Rightarrow> Inr (Suc i)))"

text \<open>\<open>str.rstrip(c)\<close> for a single character \<open>c\<close>.\<close>

definition rstrip :: "char \<Rightarrow> string \<Rightarrow> string" where
  "rstrip c x = rev (dropWhile (\<lambda>y. y = c) (rev x))"

text \<open>
  The sort key \<open>(x[-1], self.semitone_names.index(x[:-1].rstrip('#')))\<close>.  Its first
  component is a one-character string, which Python orders by code point; the model
  keeps the code point.  \<open>x[-1]\<close> raises on the empty string, \<open>index\<close> on a name that is
  not in the list.
\<close>

definition note_sort_key :: "string \<Rightarrow> py_error + (nat \<times> nat)" where
  "note_sort_key x =
     (if x = [] then Inl IndexError
      else (case index_of semitone_names (rstrip (CHR ''#'') (butlast x)) of
              Inl e \<Rightarrow> Inl e
            | Inr i \<Rightarrow> Inr (of_char (last x), i)))"

text \<open>\<open>sorted(xs, key=...)\<close>: the key of every element is computed first (the first
  failure is raised), then the elements are sorted stably by key.\<close>

fun decorate :: "string list \<Rightarrow> py_error + ((nat \<times> nat) \<times> string) list" where
  "decorate [] = Inr []"
| "decorate (x # xs) =
     (case note_sort_key x of
        Inl e \<Rightarrow> Inl e
      | Inr k \<Rightarrow> (case decorate xs of Inl e \<Rightarrow> Inl e | Inr r \<Rightarrow> Inr ((k, x) # r)))"

definition sorted_notes :: "string list \<Rightarrow> py_error + string list" where
  "sorted_notes xs =
     (case decorate xs of Inl e \<Rightarrow> Inl e | Inr kxs \<Rightarrow> Inr (map snd (sort_key fst kxs)))"

text \<open>\<open>sep.join(xs)\<close>.\<close>

fun join :: "string \<Rightarrow> string list \<Rightarrow> string" where
  "join sep [] = []"
| "join sep [x] = x"
| "join sep (x # y # ys) = x @ sep @ join sep (y # ys)"

definition display_text :: "string list \<Rightarrow> py_error + string" where
  "display_text notes =
     (if notes = [] then Inr ''Active Notes: None''
      else (case sorted_notes notes of
              Inl e \<Rightarrow> Inl e
            | Inr ns \<Rightarrow> Inr (''Active Notes: '' @ join '', '' ns)))"

section \<open>The state of \<open>InteractiveSpiralPiano\<close>\<close>

text \<open>
  One tuple of \<open>active_decay_animations\<close>.  Its last component is a reference to a
  \<open>Line2D\<close> object; every such object is the \<open>'line'\<close> of exactly one dictionary entry, so
  a reference is written as the key of the entry that owns the line.
\<close>

record decay_info =
  note_key :: note_key
  start_time :: real
  duration :: real
  decay_end_factor :: real
  line_obj :: note_key

text \<open>\<open>background\<close> is \<open>None\<close> until a snapshot of the canvas has been stored.\<close>

record piano =
  n_rotations :: nat
  enable_animation :: bool
  notes_data :: "(note_key \<times> note_data) list"
  active_notes_list :: "string list"
  active_decay_animations :: "decay_info list"
  status_text :: string
  background :: "unit option"

definition update_status_display :: "piano \<Rightarrow> py_error + piano" where
  "update_status_display s =
     (case display_text (active_notes_list s) of
        Inl e \<Rightarrow> Inl e
      | Inr t \<Rightarrow> Inr (s\<lparr>status_text := t\<rparr>))"

text \<open>A method call on the line object behind a reference, and an assignment to the
  \<open>'highlighted'\<close> field of an entry.\<close>

definition on_line :: "note_key \<Rightarrow> (line2d \<Rightarrow> line2d) \<Rightarrow> piano \<Rightarrow> piano" where
  "on_line r f s =
     s\<lparr>notes_data := AList.map_entry r (\<lambda>d. d\<lparr>line := f (line d)\<rparr>) (notes_data s)\<rparr>"

definition set_highlighted :: "note_key \<Rightarrow> bool \<Rightarrow> piano \<Rightarrow> piano" where
  "set_highlighted k h s =
     s\<lparr>notes_data := AList.map_entry k (\<lambda>d. d\<lparr>highlighted := h\<rparr>) (notes_data s)\<rparr>"

section \<open>Background capture\<close>

definition hide_all_lines :: "piano \<Rightarrow> piano" where
  "hide_all_lines s =
     s\<lparr>notes_data :=
         map (\<lambda>(k, d). (k, d\<lparr>line := (line d)\<lparr>visible := False\<rparr>\<rparr>)) (notes_data s)\<rparr>"

definition restore_highlighted_lines :: "piano \<Rightarrow> piano" where
  "restore_highlighted_lines s =
     s\<lparr>notes_data :=
         map (\<lambda>(k, d).
                (k, if highlighted d \<and> \<not> enable_animation s
                    then d\<lparr>line := (line d)\<lparr>visible := True, alpha := 1\<rparr>\<rparr>
                    else d))
           (notes_data s)\<rparr>"

text \<open>The \<open>draw_event\<close> callback; the figure has one canvas, so \<open>event.canvas\<close> is
  always the piano's.\<close>

definition on_initial_draw_capture :: "piano \<Rightarrow> piano" where
  "on_initial_draw_capture s =
     (if background s = None
      then restore_highlighted_lines ((hide_all_lines s)\<lparr>background := Some ()\<rparr>)
      else s)"

text \<open>\<open>self.fig.canvas.draw()\<close> fires the \<open>draw_event\<close> callback before it returns.\<close>

definition recreate_background :: "piano \<Rightarrow> piano" where
  "recreate_background s =
     restore_highlighted_lines
       ((on_initial_draw_capture (hide_all_lines s))\<lparr>background := Some ()\<rparr>)"

section \<open>The decay queue\<close>

definition cancel_decay_animation_for_note ::
  "note_key \<Rightarrow> bool \<Rightarrow> piano \<Rightarrow> bool \<times> piano"
where
  "cancel_decay_animation_for_note target_note_key set_invisible s =
     (case find (\<lambda>decay_info. note_key decay_info = target_note_key)
             (active_decay_animations s) of
        None \<Rightarrow> (False, s)
      | Some decay_info \<Rightarrow>
          (let s1 = (if set_invisible
                     then on_line (line_obj decay_info) (\<lambda>l. l\<lparr>alpha := 0, visible := False\<rparr>) s
                     else s);
               s2 = (if target_note_key \<in> set (map fst (notes_data s1))
                     then set_highlighted target_note_key False s1
                     else s1)
           in (True,
               s2\<lparr>active_decay_animations :=
                    remove1 decay_info (active_decay_animations s2)\<rparr>)))"

text \<open>\<open>now\<close> is the value \<open>time.time()\<close> returns inside the call.  A handler that
  schedules several tasks reads the clock once per task; the model gives all of them the
  handler's one reading.\<close>

definition add_note_to_decay_queue :: "note_key \<Rightarrow> real \<Rightarrow> piano \<Rightarrow> py_error + piano" where
  "add_note_to_decay_queue k now s =
     (let s1 = snd (cancel_decay_animation_for_note k False s) in
      case map_of (notes_data s1) k of
        None \<Rightarrow> Inl KeyError
      | Some d \<Rightarrow>
          Inr (s1\<lparr>active_decay_animations :=
                    active_decay_animations s1 @
                    [\<lparr>note_key = k, start_time = now, duration = 1 / 2,
                      decay_end_factor = 1 / 2, line_obj = k\<rparr>]\<rparr>))"

section \<open>\<open>_on_click\<close>\<close>

text \<open>
  A \<open>button_press_event\<close> as the handler reads it: whether \<open>event.inaxes\<close> is the
  piano's axes, and for each line object whether \<open>line_obj.contains(event)\<close> answers
  true.  Matplotlib computes that answer from the pointer position and the line's data;
  the handler asks each line at most once, before it changes any line.

  In the handler \<open>data\<close> is the dictionary value the loop has reached, an object that the
  cancel call changes in place; the model reads the entry of the key again after the
  cancel.  The key is in the dictionary, so the \<open>None\<close> case of that lookup is never taken.
\<close>

record mouse_event =
  inaxes_ax :: bool
  contains :: "note_key \<Rightarrow> bool"

definition on_click :: "mouse_event \<Rightarrow> real \<Rightarrow> piano \<Rightarrow> py_error + piano" where
  "on_click event now s =
     (if \<not> inaxes_ax event then Inr s
      else (case find (\<lambda>(k, d). contains event k) (notes_data s) of
              None \<Rightarrow> Inr s
            | Some (k, _) \<Rightarrow>
                (let s1 = snd (cancel_decay_animation_for_note k True s) in
                 case map_of (notes_data s1) k of
                   None \<Rightarrow> Inl KeyError
                 | Some data \<Rightarrow>
                     (case (if \<not> highlighted data
                            then (let s2 = on_line k
                                             (\<lambda>l. l\<lparr>ydata := base_r data, alpha := 1, visible := True\<rparr>)
                                             (set_highlighted k True s1);
                                      s3 = (if name data \<notin> set (active_notes_list s2)
                                            then s2\<lparr>active_notes_list :=
                                                      active_notes_list s2 @ [name data]\<rparr>
                                            else s2)
                                  in if enable_animation s3
                                     then add_note_to_decay_queue k now s3
                                     else Inr s3)
                            else (let s2 = on_line k (\<lambda>l. l\<lparr>alpha := 0, visible := False\<rparr>)
                                             (set_highlighted k False s1)
                                  in Inr (if name data \<in> set (active_notes_list s2)
                                          then s2\<lparr>active_notes_list :=
                                                    remove1 (name data) (active_notes_list s2)\<rparr>
                                          else s2))) of
                        Inl e \<Rightarrow> Inl e
                      | Inr s4 \<Rightarrow> update_status_display s4))))"

section \<open>The frame tick: \<open>_update_decay_animations\<close>\<close>

text \<open>\<open>Line2D.set_alpha\<close> raises \<open>ValueError\<close> unless its argument lies in the range
  from 0 to 1.  Every other call of \<open>set_alpha\<close> in the program passes the constant 0.0 or
  1.0; the tick passes \<open>1 - progress\<close>, and \<open>progress\<close> has no lower bound.\<close>

definition alpha_in_range :: "real \<Rightarrow> bool" where
  "alpha_in_range a = (0 \<le> a \<and> a \<le> 1)"

text \<open>The \<open>for\<close> loop over a copy of the queue; the last argument collects
  \<open>notes_to_remove_from_queue\<close>.  Dividing by a zero duration, looking up a key that is
  not in the dictionary and setting an alpha outside the range raise, in this order.\<close>

fun decay_loop ::
  "real \<Rightarrow> decay_info list \<Rightarrow> piano \<Rightarrow> decay_info list \<Rightarrow> py_error + (piano \<times> decay_info list)"
where
  "decay_loop current_time [] s finished = Inr (s, finished)"
| "decay_loop current_time (t # ts) s finished =
     (if duration t = 0 then Inl ZeroDivisionError
      else (let elapsed_time = current_time - start_time t;
                progress = min 1 (elapsed_time / duration t)
            in if progress < 1
               then (case map_of (notes_data s) (note_key t) of
                       None \<Rightarrow> Inl KeyError
                     | Some d \<Rightarrow>
                         (let current_r_factor = 1 - progress * (1 - decay_end_factor t);
                              current_alpha = 1 - progress
                          in if \<not> alpha_in_range current_alpha then Inl ValueError
                             else decay_loop current_time ts
                                    (on_line (line_obj t)
                                       (\<lambda>l. l\<lparr>ydata := map (\<lambda>r. r * current_r_factor) (base_r d),
                                              alpha := current_alpha, visible := True\<rparr>) s)
                                    finished))
               else (let s1 = on_line (line_obj t) (\<lambda>l. l\<lparr>alpha := 0, visible := False\<rparr>) s;
                         s2 = (if note_key t \<in> set (map fst (notes_data s1))
                               then set_highlighted (note_key t) False s1
                               else s1)
                     in decay_loop current_time ts s2 (finished @ [t]))))"

fun remove_finished :: "decay_info list \<Rightarrow> decay_info list \<Rightarrow> decay_info list" where
  "remove_finished [] q = q"
| "remove_finished (t # ts) q = remove_finished ts (if t \<in> set q then remove1 t q else q)"

definition update_decay_animations :: "real \<Rightarrow> piano \<Rightarrow> py_error + piano" where
  "update_decay_animations current_time s =
     (let s0 = (if background s = None then recreate_background s else s) in
      if background s0 = None then Inr s0
      else (case decay_loop current_time (active_decay_animations s0) s0 [] of
              Inl e \<Rightarrow> Inl e
            | Inr (s1, notes_to_remove_from_queue) \<Rightarrow>
                update_status_display
                  (s1\<lparr>active_decay_animations :=
                       remove_finished notes_to_remove_from_queue
                         (active_decay_animations s1)\<rparr>)))"

section \<open>Batch decay and \<open>_on_key_press\<close>\<close>

fun batch_loop :: "note_key list \<Rightarrow> real \<Rightarrow> piano \<Rightarrow> py_error + piano" where
  "batch_loop [] now s = Inr s"
| "batch_loop (k # ks) now s =
     (case map_of (notes_data s) k of
        None \<Rightarrow> Inl KeyError
      | Some data \<Rightarrow>
          (case add_note_to_decay_queue k now
                  (on_line k (\<lambda>l. l\<lparr>ydata := base_r data, alpha := 1, visible := True\<rparr>) s) of
             Inl e \<Rightarrow> Inl e
           | Inr s' \<Rightarrow> batch_loop ks now s'))"

definition trigger_batch_decay :: "bool \<Rightarrow> real \<Rightarrow> piano \<Rightarrow> py_error + piano" where
  "trigger_batch_decay force_animation now s =
     (if \<not> enable_animation s \<and> \<not> force_animation then Inr s
      else (let notes_to_decay_keys = map fst (filter (\<lambda>(k, d). highlighted d) (notes_data s))
            in case update_status_display (s\<lparr>active_notes_list := []\<rparr>) of
                 Inl e \<Rightarrow> Inl e
               | Inr s1 \<Rightarrow> batch_loop notes_to_decay_keys now s1))"

text \<open>\<open>key\<close> is \<open>event.key\<close>.\<close>

definition on_key_press :: "string \<Rightarrow> real \<Rightarrow> piano \<Rightarrow> py_error + piano" where
  "on_key_press key now s =
     (if key = '' '' then
        (if \<not> enable_animation s then trigger_batch_decay False now s else Inr s)
      else if key = ''a'' then
        (let s1 = recreate_background s;
             s2 = s1\<lparr>enable_animation := \<not> enable_animation s1\<rparr>
         in if enable_animation s2 \<and> active_notes_list s2 \<noteq> []
            then trigger_batch_decay True now s2
            else Inr s2)
      else Inr s)"

section \<open>Construction and runs\<close>

definition init_piano :: "nat \<Rightarrow> bool \<Rightarrow> py_error + piano" where
  "init_piano n enable =
     (case draw_notes_segments n of
        Inl e \<Rightarrow> Inl e
      | Inr nd \<Rightarrow>
          update_status_display
            \<lparr>n_rotations = n, enable_animation = enable, notes_data = nd,
             active_notes_list = [], active_decay_animations = [],
             status_text = ''Active Notes: None'', background = None\<rparr>)"

text \<open>The callbacks the event loop can run, each with the clock reading it sees.  A run
  ends at the first exception.\<close>

datatype event =
    Click mouse_event real
  | KeyPress string real
  | Tick real
  | DrawEvent

fun step :: "event \<Rightarrow> piano \<Rightarrow> py_error + piano" where
  "step (Click ev now) s = on_click ev now s"
| "step (KeyPress key now) s = on_key_press key now s"
| "step (Tick now) s = update_decay_animations now s"
| "step DrawEvent s = Inr (on_initial_draw_capture s)"

fun run :: "event list \<Rightarrow> piano \<Rightarrow> py_error + piano" where
  "run [] s = Inr s"
| "run (e # es) s = (case step e s of Inl x \<Rightarrow> Inl x | Inr s' \<Rightarrow> run es s')"

section \<open>The polar hit test of src/v11.py\<close>

text \<open>
  In this revision a dictionary value holds the line's alpha and the \<open>highlighted\<close> flag,
  and the click handler computes the key from the pointer's polar coordinates.  The
  octave index it computes is a Python int and can be negative.
\<close>

record v11_note =
  v11_alpha :: real
  v11_highlighted :: bool

type_synonym v11_notes = "(int \<times> nat) \<rightharpoonup> v11_note"

record v11_event =
  v11_inaxes_ax :: bool
  v11_button :: int
  v11_xdata :: real
  v11_ydata :: real

definition theta_full :: "nat \<Rightarrow> real list" where
  "theta_full n = linspace 0 (2 * pi * real n) 1000"

definition angles :: "real list" where
  "angles = linspace 0 (2 * pi) 13"

text \<open>The body of the loops of \<open>_draw_notes_segments\<close>: a key gets an entry when some
  sample of \<open>theta_full\<close> lies in its closed angle range.\<close>

definition v11_draw_step :: "nat \<Rightarrow> note_key \<Rightarrow> v11_notes \<Rightarrow> v11_notes" where
  "v11_draw_step n k nd =
     (let start_angle_for_note = total_start_theta (fst k) (snd k);
          end_angle_for_note = total_end_theta (fst k) (snd k);
          theta_segment_indices =
            filter (\<lambda>i. start_angle_for_note \<le> theta_full n ! i \<and>
                        theta_full n ! i \<le> end_angle_for_note) [0..<1000]
      in if 0 < length theta_segment_indices
         then nd((int (fst k), snd k) \<mapsto> \<lparr>v11_alpha = 0, v11_highlighted = False\<rparr>)
         else nd)"

definition v11_draw_notes_segments :: "nat \<Rightarrow> v11_notes" where
  "v11_draw_notes_segments n = fold (v11_draw_step n) (note_keys n) Map.empty"

text \<open>\<open>int(x)\<close> on a finite float truncates toward zero.\<close>

definition py_int :: "real \<Rightarrow> int" where
  "py_int x = (if 0 \<le> x then \<lfloor>x\<rfloor> else \<lceil>x\<rceil>)"

text \<open>\<open>int(np.log2(r))\<close>: \<open>np.log2\<close> gives nan below zero and \<open>-inf\<close> at zero, and
  \<open>int\<close> raises on both.\<close>

definition int_log2 :: "real \<Rightarrow> py_error + int" where
  "int_log2 r =
     (if r < 0 then Inl ValueError
      else if r = 0 then Inl OverflowError
      else Inr (py_int (log 2 r)))"

text \<open>Python's \<open>x % m\<close> for a positive float \<open>m\<close>.\<close>

definition py_mod :: "real \<Rightarrow> real \<Rightarrow> real" where
  "py_mod x m = x - m * of_int \<lfloor>x / m\<rfloor>"

text \<open>\<open>np.isclose(a, b)\<close> with its default tolerances.\<close>

definition isclose :: "real \<Rightarrow> real \<Rightarrow> bool" where
  "isclose a b = (\<bar>a - b\<bar> \<le> 1 / 10 ^ 8 + 1 / 10 ^ 5 * \<bar>b\<bar>)"

definition v11_on_click :: "v11_event \<Rightarrow> v11_notes \<Rightarrow> py_error + v11_notes" where
  "v11_on_click event nd =
     (if \<not> v11_inaxes_ax event then Inr nd
      else if v11_button event \<noteq> 1 then Inr nd
      else (let clicked_theta = py_mod (v11_xdata event) (2 * pi);
                clicked_r = v11_ydata event
            in case int_log2 clicked_r of
                 Inl e \<Rightarrow> Inl e
               | Inr octave_idx \<Rightarrow>
                   (let semitone_idx =
                          (case find (\<lambda>i. angles ! i \<le> clicked_theta \<and>
                                           clicked_theta < angles ! (i + 1)) [0..<12] of
                             Some i \<Rightarrow> Some i
                           | None \<Rightarrow>
                               if isclose clicked_theta (angles ! 12) then Some 11 else None)
                    in case semitone_idx of
                         None \<Rightarrow> Inr nd
                       | Some si \<Rightarrow>
                           (case nd (octave_idx, si) of
                              None \<Rightarrow> Inr nd
                            | Some d \<Rightarrow>
                                Inr (nd((octave_idx, si) \<mapsto>
                                       \<lparr>v11_alpha = (if \<not> v11_highlighted d then 1 else 0),
                                        v11_highlighted = \<not> v11_highlighted d\<rparr>))))))"

section \<open>Auxiliary definitions for the proofs\<close>

text \<open>The dictionary entry \<open>_draw_notes_segments\<close> stores for a key.\<close>

definition note_of :: "note_key \<Rightarrow> note_data" where
  "note_of k = new_note (fst k) (snd k) (semitone_names ! snd k @ str_nat (fst k + 1))"

text \<open>A name for which the sort key of the status summary is defined.\<close>

definition name_ok :: "string \<Rightarrow> bool" where
  "name_ok x = (case note_sort_key x of Inl e \<Rightarrow> False | Inr k \<Rightarrow> True)"

text \<open>The key a click is resolved to: the first key, in dictionary order, whose line
  contains the pointer.\<close>

definition resolve :: "mouse_event \<Rightarrow> piano \<Rightarrow> note_key option" where
  "resolve event s =
     (if inaxes_ax event then find (contains event) (map fst (notes_data s)) else None)"

text \<open>The tasks of a key, and the local variable \<open>progress\<close> of the tick.\<close>

definition tasks_of :: "piano \<Rightarrow> note_key \<Rightarrow> decay_info list" where
  "tasks_of s k = filter (\<lambda>t. note_key t = k) (active_decay_animations s)"

definition progress :: "real \<Rightarrow> decay_info \<Rightarrow> real" where
  "progress current_time t = min 1 ((current_time - start_time t) / duration t)"

text \<open>The tuple \<open>_add_note_to_decay_queue\<close> appends.\<close>

definition new_task :: "note_key \<Rightarrow> real \<Rightarrow> decay_info" where
  "new_task k now =
     \<lparr>note_key = k, start_time = now, duration = 1 / 2, decay_end_factor = 1 / 2,
      line_obj = k\<rparr>"

text \<open>What one tick writes into the entry of a key that has the task \<open>t\<close>.\<close>

definition tick_note :: "real \<Rightarrow> decay_info \<Rightarrow> note_data \<Rightarrow> note_data" where
  "tick_note current_time t d =
     (if progress current_time t < 1
      then d\<lparr>line := (line d)
               \<lparr>ydata := map (\<lambda>r. r * (1 - progress current_time t * (1 - decay_end_factor t)))
                           (base_r d),
                alpha := 1 - progress current_time t, visible := True\<rparr>\<rparr>
      else d\<lparr>line := (line d)\<lparr>alpha := 0, visible := False\<rparr>, highlighted := False\<rparr>)"

text \<open>The part of the dictionary no handler writes.\<close>

definition static_part :: "piano \<Rightarrow> (note_key \<times> string \<times> real list) list" where
  "static_part s = map (\<lambda>(k, d). (k, name d, base_r d)) (notes_data s)"

text \<open>
  The invariant of the reachable states: the dictionary has no key twice and only names
  the status summary can sort; the active list holds such names; every task is for a key
  of the dictionary, refers to that key's own line and has a positive duration; no key has
  two tasks.
\<close>

definition piano_inv :: "piano \<Rightarrow> bool" where
  "piano_inv s =
     (distinct (map fst (notes_data s)) \<and>
      list_all (\<lambda>(k, d). name_ok (name d)) (notes_data s) \<and>
      list_all name_ok (active_notes_list s) \<and>
      list_all (\<lambda>t. note_key t \<in> set (map fst (notes_data s)) \<and> line_obj t = note_key t \<and>
                    0 < duration t)
        (active_decay_animations s) \<and>
      distinct (map note_key (active_decay_animations s)))"

text \<open>What a background capture does to one dictionary entry: the line is hidden, and
  shown again at full alpha when the note is highlighted and animation is off.\<close>

definition rb_note :: "bool \<Rightarrow> note_data \<Rightarrow> note_data" where
  "rb_note e d =
     (if highlighted d \<and> \<not> e then d\<lparr>line := (line d)\<lparr>visible := True, alpha := 1\<rparr>\<rparr>
      else d\<lparr>line := (line d)\<lparr>visible := False\<rparr>\<rparr>)"

text \<open>The state \<open>__init__\<close> builds.\<close>

definition initial_state :: "nat \<Rightarrow> bool \<Rightarrow> piano" where
  "initial_state n enable =
     \<lparr>n_rotations = n, enable_animation = enable,
      notes_data = map (\<lambda>k. (k, note_of k)) (note_keys n),
      active_notes_list = [], active_decay_animations = [],
      status_text = ''Active Notes: None'', background = None\<rparr>"


text \<open>A click inside the axes whose pointer lies on the line of the key \<open>k\<close> and on no
  other line.\<close>

definition click_on :: "note_key \<Rightarrow> mouse_event" where
  "click_on k = \<lparr>inaxes_ax = True, contains = (\<lambda>k'. k' = k)\<rparr>"

text \<open>Every task in the queue started at or before the clock reading \<open>c\<close>.\<close>

definition started_by :: "real \<Rightarrow> piano \<Rightarrow> bool" where
  "started_by c s = list_all (\<lambda>t. start_time t \<le> c) (active_decay_animations s)"

text \<open>The clock readings of a sequence of events never go back, starting from the
  reading \<open>c\<close>.  A draw event reads no clock.\<close>

fun clock_ok :: "real \<Rightarrow> event list \<Rightarrow> bool" where
  "clock_ok c [] = True"
| "clock_ok c (Click ev now # es) = (c \<le> now \<and> clock_ok now es)"
| "clock_ok c (KeyPress key now # es) = (c \<le> now \<and> clock_ok now es)"
| "clock_ok c (Tick now # es) = (c \<le> now \<and> clock_ok now es)"
| "clock_ok c (DrawEvent # es) = clock_ok c es"

text \<open>The clock reading after an event.\<close>

fun clock_after :: "real \<Rightarrow> event \<Rightarrow> real" where
  "clock_after c (Click ev now) = now"
| "clock_after c (KeyPress key now) = now"
| "clock_after c (Tick now) = now"
| "clock_after c DrawEvent = c"

text \<open>Every task of the second queue is in the first queue or starts at \<open>now\<close>.\<close>

definition queue_from :: "real \<Rightarrow> piano \<Rightarrow> piano \<Rightarrow> bool" where
  "queue_from now s s' =
     list_all (\<lambda>t. t \<in> set (active_decay_animations s) \<or> start_time t = now)
       (active_decay_animations s')"

section \<open>Geometry of the segments\<close>

lemma length_semitone_names: "length semitone_names = 12"
  by (simp add: semitone_names_def)

lemma update_fresh: "k \<notin> fst ` set al \<Longrightarrow> AList.update k v al = al @ [(k, v)]"
  by (induction al) auto

lemma draw_loop_step:
  "si < 12 \<Longrightarrow> draw_loop ((oi, si) # ks) nd = draw_loop ks (AList.update (oi, si) (note_of (oi, si)) nd)"
  by (simp add: get_note_name_def length_semitone_names note_of_def)

lemma draw_loop_fresh:
  "distinct ks \<Longrightarrow> set ks \<inter> fst ` set nd = {} \<Longrightarrow> \<forall>k \<in> set ks. snd k < 12 \<Longrightarrow>
   draw_loop ks nd = Inr (nd @ map (\<lambda>k. (k, note_of k)) ks)"
proof (induction ks arbitrary: nd)
  case Nil
  then show ?case by simp
next
  case (Cons k ks)
  obtain oi si where k: "k = (oi, si)" by (cases k)
  from Cons.prems have fresh: "k \<notin> fst ` set nd" and si: "si < 12" using k by auto
  have upd: "AList.update k (note_of k) nd = nd @ [(k, note_of k)]"
    using fresh by (rule update_fresh)
  have d: "distinct ks" and b: "\<forall>k \<in> set ks. snd k < 12" using Cons.prems by auto
  have "set ks \<inter> fst ` set (nd @ [(k, note_of k)]) = {}"
    using Cons.prems by auto
  from Cons.IH [OF d this b]
  have ih: "draw_loop ks (nd @ [(k, note_of k)]) = Inr ((nd @ [(k, note_of k)]) @ map (\<lambda>k. (k, note_of k)) ks)" .
  have "draw_loop (k # ks) nd = draw_loop ks (nd @ [(k, note_of k)])"
    unfolding k using draw_loop_step [OF si] upd [unfolded k] by simp
  with ih show ?case by simp
qed

lemma distinct_note_keys: "distinct (note_keys n)"
  by (simp add: note_keys_def distinct_product)

lemma set_note_keys: "set (note_keys n) = {k. fst k < n \<and> snd k < 12}"
  by (auto simp: note_keys_def)

lemma draw_notes_segments_eq:
  "draw_notes_segments n = Inr (map (\<lambda>k. (k, note_of k)) (note_keys n))"
proof -
  have "draw_loop (note_keys n) [] = Inr ([] @ map (\<lambda>k. (k, note_of k)) (note_keys n))"
    by (rule draw_loop_fresh) (simp_all add: distinct_note_keys set_note_keys)
  then show ?thesis by (simp add: draw_notes_segments_def)
qed

lemma map_of_graph: "map_of (map (\<lambda>k. (k, f k)) ks) k = (if k \<in> set ks then Some (f k) else None)"
  by (induction ks) auto

lemma hd_linspace: "0 < num \<Longrightarrow> hd (linspace a b num) = a"
  by (simp add: linspace_def hd_map upt_conv_Cons)

lemma last_linspace: "2 \<le> num \<Longrightarrow> last (linspace a b num) = b"
proof -
  assume n: "2 \<le> num"
  then have ne: "[0..<num] \<noteq> []" by simp
  have l: "last [0..<num] = num - 1" using n by (simp add: last_upt)
  have "real (num - 1) \<noteq> 0" using n by simp
  then show ?thesis
    by (simp add: linspace_def last_map [OF ne] l)
qed

lemma linspace_bounds:
  assumes "a \<le> b" "2 \<le> num" "x \<in> set (linspace a b num)"
  shows "a \<le> x \<and> x \<le> b"
proof -
  define m where "m = real (num - 1)"
  from assms(3) obtain i where i: "i < num" and x: "x = a + real i * ((b - a) / m)"
    by (auto simp: linspace_def m_def)
  define t where "t = real i * ((b - a) / m)"
  have pos: "0 < m" using assms(2) by (simp add: m_def)
  have le1: "real i \<le> m" using i by (simp add: m_def)
  have d: "0 \<le> (b - a) / m" using assms(1) pos by simp
  have "t \<le> m * ((b - a) / m)"
    unfolding t_def using le1 d by (rule mult_right_mono)
  also have "\<dots> = b - a" using pos by simp
  finally have up: "t \<le> b - a" .
  have lo: "0 \<le> t"
    unfolding t_def by (rule mult_nonneg_nonneg [OF _ d]) simp
  have "x = a + t" by (simp add: x t_def)
  with up lo show ?thesis by simp
qed

lemma start_le_end: "total_start_theta oi si \<le> total_end_theta oi si"
  by (simp add: total_start_theta_def total_end_theta_def algebra_simps)

lemma radius_c3: "exp (b_const * (4 * pi)) = 4"
proof -
  have e: "b_const * (4 * pi) = 2 * ln 2" by (simp add: b_const_def)
  have "exp (b_const * (4 * pi)) = exp (2 * ln 2)" by (simp only: e)
  also have "\<dots> = (exp (ln 2)) ^ 2" by (rule exp_double)
  also have "\<dots> = 4" by simp
  finally show ?thesis .
qed

lemma lookup_drawn:
  assumes "octave_idx < n" "semitone_idx < 12"
  shows "\<exists>nd. draw_notes_segments n = Inr nd \<and>
           map_of nd (octave_idx, semitone_idx) = Some (note_of (octave_idx, semitone_idx))"
  using assms by (simp add: draw_notes_segments_eq map_of_graph set_note_keys)

text \<open>
  C9 (as amended).  For every key \<open>(octave_idx, semitone_idx)\<close> of a piano with \<open>n\<close>
  rotations, \<open>_draw_notes_segments\<close> stores 30 sample angles of the closed range from
  \<open>octave_idx\<cdot>2\<pi> + semitone_idx\<cdot>(2\<pi>/12)\<close> to
  \<open>octave_idx\<cdot>2\<pi> + (semitone_idx+1)\<cdot>(2\<pi>/12)\<close>: the first sample is the start angle,
  the last sample is the end angle, and all samples lie between the two; the radii
  are \<open>exp(b\<cdot>\<theta>)\<close> with \<open>b = ln 2 / (2\<pi>)\<close> and are the line's data; the end angle of a
  key is the start angle of the next key.  For C3
  (octave index 2, pitch class 0) the range runs from \<open>4\<pi>\<close> to \<open>4\<pi> + \<pi>/6\<close>, both
  included, and the radius at its start is 4.
\<close>

theorem segment_geometry:
  assumes "octave_idx < n" and "semitone_idx < 12"
  shows "\<exists>nd d. draw_notes_segments n = Inr nd \<and>
           map_of nd (octave_idx, semitone_idx) = Some d \<and>
           length (base_theta d) = 30 \<and>
           hd (base_theta d) = real octave_idx * 2 * pi + real semitone_idx * (2 * pi / 12) \<and>
           last (base_theta d) =
             real octave_idx * 2 * pi + (real semitone_idx + 1) * (2 * pi / 12) \<and>
           list_all (\<lambda>\<theta>. hd (base_theta d) \<le> \<theta> \<and> \<theta> \<le> last (base_theta d)) (base_theta d) \<and>
           base_r d = map (\<lambda>\<theta>. exp (ln 2 / (2 * pi) * \<theta>)) (base_theta d) \<and>
           ydata (line d) = base_r d \<and>
           total_end_theta octave_idx semitone_idx =
             (if semitone_idx < 11 then total_start_theta octave_idx (semitone_idx + 1)
              else total_start_theta (octave_idx + 1) 0) \<and>
           total_start_theta 2 0 = 4 * pi \<and>
           total_end_theta 2 0 = 4 * pi + pi / 6 \<and>
           exp (ln 2 / (2 * pi) * total_start_theta 2 0) = 4"
proof -
  let ?d = "note_of (octave_idx, semitone_idx)"
  let ?a = "total_start_theta octave_idx semitone_idx"
  let ?b = "total_end_theta octave_idx semitone_idx"
  from lookup_drawn [OF assms] obtain nd where
    nd: "draw_notes_segments n = Inr nd" "map_of nd (octave_idx, semitone_idx) = Some ?d"
    by blast
  have bt: "base_theta ?d = linspace ?a ?b 30"
    by (simp add: note_of_def new_note_def segment_theta_def num_points_in_segment_def)
  have len: "length (base_theta ?d) = 30" by (simp add: bt linspace_def)
  have h: "hd (base_theta ?d) = ?a" by (simp add: bt hd_linspace)
  have l: "last (base_theta ?d) = ?b" by (simp add: bt last_linspace)
  have bnd: "list_all (\<lambda>\<theta>. hd (base_theta ?d) \<le> \<theta> \<and> \<theta> \<le> last (base_theta ?d)) (base_theta ?d)"
    unfolding h l unfolding bt list_all_iff
  proof
    fix x assume "x \<in> set (linspace ?a ?b 30)"
    with linspace_bounds [OF start_le_end, of 30 x octave_idx semitone_idx]
    show "?a \<le> x \<and> x \<le> ?b" by simp
  qed
  have br: "base_r ?d = map (\<lambda>\<theta>. exp (ln 2 / (2 * pi) * \<theta>)) (base_theta ?d)"
    by (simp add: note_of_def new_note_def segment_r_def b_const_def)
  have yd: "ydata (line ?d) = base_r ?d"
    by (simp add: note_of_def new_note_def)
  have nxt: "?b = (if semitone_idx < 11 then total_start_theta octave_idx (semitone_idx + 1)
              else total_start_theta (octave_idx + 1) 0)"
  proof (cases "semitone_idx < 11")
    case True
    then show ?thesis by (simp add: total_end_theta_def total_start_theta_def algebra_simps)
  next
    case False
    with assms(2) have "semitone_idx = 11" by simp
    then show ?thesis by (simp add: total_end_theta_def total_start_theta_def algebra_simps)
  qed
  have c3a: "total_start_theta 2 0 = 4 * pi" by (simp add: total_start_theta_def)
  have c3b: "total_end_theta 2 0 = 4 * pi + pi / 6" by (simp add: total_end_theta_def)
  have c3c: "exp (ln 2 / (2 * pi) * total_start_theta 2 0) = 4"
    using radius_c3 by (simp add: c3a b_const_def)
  have ha: "hd (base_theta ?d) = real octave_idx * 2 * pi + real semitone_idx * (2 * pi / 12)"
    using h by (simp add: total_start_theta_def)
  have la: "last (base_theta ?d) = real octave_idx * 2 * pi + (real semitone_idx + 1) * (2 * pi / 12)"
    using l by (simp add: total_end_theta_def)
  show ?thesis
    using nd len ha la bnd br yd nxt c3a c3b c3c by blast
qed

text \<open>The theorem at the key C3 of the five-rotation piano.\<close>

theorem segment_geometry_c3:
  "\<exists>nd d. draw_notes_segments 5 = Inr nd \<and> map_of nd (2, 0) = Some d \<and>
     hd (base_theta d) = 4 * pi \<and> last (base_theta d) = 4 * pi + pi / 6 \<and>
     hd (base_r d) = 4"
proof -
  have a: "(2::nat) < 5" and b: "(0::nat) < 12" by simp_all
  from segment_geometry [OF a b] obtain nd d where
    f: "draw_notes_segments 5 = Inr nd" "map_of nd (2, 0) = Some d"
       "length (base_theta d) = 30"
       "hd (base_theta d) = real 2 * 2 * pi + real 0 * (2 * pi / 12)"
       "last (base_theta d) = real 2 * 2 * pi + (real 0 + 1) * (2 * pi / 12)"
       "base_r d = map (\<lambda>\<theta>. exp (ln 2 / (2 * pi) * \<theta>)) (base_theta d)"
       "total_start_theta 2 0 = 4 * pi"
       "exp (ln 2 / (2 * pi) * total_start_theta 2 0) = 4"
    by blast
  from f(3) have ne: "base_theta d \<noteq> []" by auto
  have h: "hd (base_theta d) = 4 * pi" using f(4) by simp
  have l: "last (base_theta d) = 4 * pi + pi / 6" using f(5) by simp
  have "hd (base_r d) = exp (ln 2 / (2 * pi) * hd (base_theta d))"
    unfolding f(6) using ne by (simp add: hd_map)
  then have r: "hd (base_r d) = 4" using f(8) by (simp only: h f(7))
  from f(1,2) h l r show ?thesis by blast
qed

text \<open>
  The range of a key is not half-open.  On the five-rotation piano the segment of C3 holds
  its end angle \<open>4\<pi> + \<pi>/6\<close> as its last sample, and the angle \<open>4\<pi>\<close> is a sample of two
  segments: it is the last sample of B2 (octave index 1, pitch class 11) and the first
  sample of C3.
\<close>

theorem end_angle_is_sampled:
  "\<exists>nd dB dC. draw_notes_segments 5 = Inr nd \<and>
     map_of nd (1, 11) = Some dB \<and> map_of nd (2, 0) = Some dC \<and>
     name dB = ''B2'' \<and> name dC = ''C3'' \<and>
     last (base_theta dC) = 4 * pi + pi / 6 \<and>
     4 * pi + pi / 6 \<in> set (base_theta dC) \<and>
     last (base_theta dB) = 4 * pi \<and> hd (base_theta dC) = 4 * pi \<and>
     4 * pi \<in> set (base_theta dB) \<and> 4 * pi \<in> set (base_theta dC)"
proof -
  have a: "(1::nat) < 5" "(11::nat) < 12" "(2::nat) < 5" "(0::nat) < 12" by simp_all
  from lookup_drawn [OF a(1,2)] obtain nd where
    nd: "draw_notes_segments 5 = Inr nd" "map_of nd (1, 11) = Some (note_of (1, 11))" by blast
  from lookup_drawn [OF a(3,4)] nd(1) have c: "map_of nd (2, 0) = Some (note_of (2, 0))" by auto
  have btB: "base_theta (note_of (1, 11)) = linspace (total_start_theta 1 11) (total_end_theta 1 11) 30"
    by (simp add: note_of_def new_note_def segment_theta_def num_points_in_segment_def)
  have btC: "base_theta (note_of (2, 0)) = linspace (total_start_theta 2 0) (total_end_theta 2 0) 30"
    by (simp add: note_of_def new_note_def segment_theta_def num_points_in_segment_def)
  have neB: "base_theta (note_of (1, 11)) \<noteq> []" and neC: "base_theta (note_of (2, 0)) \<noteq> []"
    unfolding btB btC by (simp_all add: linspace_def)
  have lB: "last (base_theta (note_of (1, 11))) = 4 * pi"
    unfolding btB by (simp add: last_linspace total_end_theta_def)
  have lC: "last (base_theta (note_of (2, 0))) = 4 * pi + pi / 6"
    unfolding btC by (simp add: last_linspace total_end_theta_def)
  have hC: "hd (base_theta (note_of (2, 0))) = 4 * pi"
    unfolding btC by (simp add: hd_linspace total_start_theta_def)
  have m1: "4 * pi + pi / 6 \<in> set (base_theta (note_of (2, 0)))"
    using last_in_set [OF neC] by (simp only: lC)
  have m2: "4 * pi \<in> set (base_theta (note_of (1, 11)))"
    using last_in_set [OF neB] by (simp only: lB)
  have m3: "4 * pi \<in> set (base_theta (note_of (2, 0)))"
    using hd_in_set [OF neC] by (simp only: hC)
  have nB: "name (note_of (1, 11)) = ''B2''"
    by (simp add: note_of_def new_note_def get_note_name_def semitone_names_def str_nat.simps [of "Suc (Suc 0)"])
  have nC: "name (note_of (2, 0)) = ''C3''"
    by (simp add: note_of_def new_note_def get_note_name_def semitone_names_def str_nat.simps [of 3])
  show ?thesis
    apply (rule exI [of _ nd])
    apply (rule exI [of _ "note_of (1, 11)"])
    apply (rule exI [of _ "note_of (2, 0)"])
    apply (intro conjI)
    apply (rule nd(1))
    apply (rule nd(2))
    apply (rule c)
    apply (rule nB)
    apply (rule nC)
    apply (rule lC)
    apply (rule m1)
    apply (rule lB)
    apply (rule hC)
    apply (rule m2)
    apply (rule m3)
    done
qed

section \<open>Sort keys of the status summary\<close>

lemma key_cs3: "note_sort_key ''C#3'' = Inr (51, 0)"
  by (simp add: note_sort_key_def rstrip_def semitone_names_def)

lemma key_c3: "note_sort_key ''C3'' = Inr (51, 0)"
  by (simp add: note_sort_key_def rstrip_def semitone_names_def)


section \<open>The polar hit test below the innermost octave\<close>

lemma log2_three_quarters: "py_int (log 2 (3 / 4)) = 0"
proof -
  have neg: "log 2 (3 / 4) < 0" by simp
  have "log 2 (1 / 2) < log 2 (3 / 4)" by (subst log_less_cancel_iff) simp_all
  moreover have "log 2 (1 / 2) = - 1" by (simp add: log_divide)
  ultimately have gt: "- 1 < log 2 (3 / 4)" by simp
  have "\<lceil>log 2 (3 / 4)\<rceil> = 0"
    using neg gt by (simp add: ceiling_eq_iff)
  with neg show ?thesis by (simp add: py_int_def)
qed

lemma angles_nth: "i < 13 \<Longrightarrow> angles ! i = real i * (2 * pi / 12)"
  by (simp add: angles_def linspace_def)

lemma find_semitone_zero:
  "find (\<lambda>i. angles ! i \<le> 0 \<and> 0 < angles ! Suc i) [0..<12] = Some 0"
  by (simp add: upt_conv_Cons angles_nth)

lemma v11_fold_lookup:
  "fold (v11_draw_step n) ks m (0, 0) =
     (if (0, 0) \<in> set ks then Some \<lparr>v11_alpha = 0, v11_highlighted = False\<rparr> else m (0, 0))"
proof (induction ks arbitrary: m)
  case Nil
  then show ?case by simp
next
  case (Cons k ks)
  have t0: "theta_full n ! 0 = 0" by (simp add: theta_full_def linspace_def)
  have z: "(0::nat) \<in> set [0..<1000]" by simp
  have nonempty: "filter (\<lambda>i. total_start_theta 0 0 \<le> theta_full n ! i \<and>
                      theta_full n ! i \<le> total_end_theta 0 0) [0..<1000] \<noteq> []"
    unfolding filter_empty_conv using z t0
    by (auto simp: total_start_theta_def total_end_theta_def intro!: bexI [of _ 0])
  show ?case
  proof (cases "k = (0, 0)")
    case True
    then have "v11_draw_step n k m (0, 0) = Some \<lparr>v11_alpha = 0, v11_highlighted = False\<rparr>"
      using nonempty by (simp add: v11_draw_step_def Let_def)
    then show ?thesis using True by (simp add: Cons.IH)
  next
    case False
    then have "v11_draw_step n k m (0, 0) = m (0, 0)"
      by (cases k) (auto simp add: v11_draw_step_def Let_def)
    then show ?thesis using False by (simp add: Cons.IH)
  qed
qed

lemma v11_initial_c1:
  "v11_draw_notes_segments 5 (0, 0) = Some \<lparr>v11_alpha = 0, v11_highlighted = False\<rparr>"
  by (simp add: v11_draw_notes_segments_def v11_fold_lookup note_keys_def)

text \<open>
  C4.  In src/v11.py a left click at angle 0 and radius 3/4, below the innermost octave,
  is resolved to the key (0, 0): \<open>log2 (3/4)\<close> lies between -1 and 0 and \<open>int\<close>
  truncates it to 0.  The key C1, dark before the click, is highlighted after it.
\<close>

theorem v11_click_below_innermost_octave:
  "v11_draw_notes_segments 5 (0, 0) = Some \<lparr>v11_alpha = 0, v11_highlighted = False\<rparr> \<and>
   (\<exists>nd'. v11_on_click \<lparr>v11_inaxes_ax = True, v11_button = 1, v11_xdata = 0, v11_ydata = 3 / 4\<rparr>
             (v11_draw_notes_segments 5) = Inr nd' \<and>
           nd' (0, 0) = Some \<lparr>v11_alpha = 1, v11_highlighted = True\<rparr>)"
  by (simp add: v11_on_click_def py_mod_def int_log2_def log2_three_quarters
      find_semitone_zero v11_initial_c1)

section \<open>Lemmas about the handlers\<close>

text \<open>
  Each handler is characterised by what it does to the queue, to the active list and to
  every dictionary entry.  The invariant \<open>piano_inv\<close> holds in the state \<open>__init__\<close> builds
  (\<open>initial_state_inv\<close>).  The click and key handlers return without an exception and
  keep it; the tick does so when no task in the queue starts after its clock reading,
  which holds along every run whose clock never goes back (\<open>step_inv\<close>, \<open>run_inv\<close>).
\<close>

subsection \<open>Status display and dictionary entries\<close>

lemma decorate_ok: "list_all name_ok xs \<Longrightarrow> \<exists>r. decorate xs = Inr r"
  by (induction xs) (auto simp: name_ok_def split: sum.splits)

lemma display_text_ok: "list_all name_ok xs \<Longrightarrow> \<exists>t. display_text xs = Inr t"
  using decorate_ok [of xs]
  by (auto simp: display_text_def sorted_notes_def split: sum.splits)

lemma update_status_display_ok:
  "list_all name_ok (active_notes_list s) \<Longrightarrow>
   \<exists>t. display_text (active_notes_list s) = Inr t \<and> update_status_display s = Inr (s\<lparr>status_text := t\<rparr>)"
  using display_text_ok [of "active_notes_list s"]
  by (auto simp: update_status_display_def)

lemma update_status_display_fields:
  "update_status_display s = Inr s' \<Longrightarrow>
   s' = s\<lparr>status_text := status_text s'\<rparr> \<and> display_text (active_notes_list s) = Inr (status_text s')"
  by (auto simp: update_status_display_def split: sum.splits)

lemma map_fst_map_entry: "map fst (AList.map_entry k f xs) = map fst xs"
  by (induction xs) auto

lemma map_of_map_entry_at:
  "map_of (AList.map_entry k f xs) k' =
     (if k' = k then map_option f (map_of xs k) else map_of xs k')"
  by (induction xs) (auto)

lemma notes_on_line:
  "map fst (notes_data (on_line r f s)) = map fst (notes_data s)"
  "map_of (notes_data (on_line r f s)) k =
     (if k = r then map_option (\<lambda>d. d\<lparr>line := f (line d)\<rparr>) (map_of (notes_data s) r)
      else map_of (notes_data s) k)"
  by (simp_all add: on_line_def map_fst_map_entry map_of_map_entry_at)

lemma notes_set_highlighted:
  "map fst (notes_data (set_highlighted r h s)) = map fst (notes_data s)"
  "map_of (notes_data (set_highlighted r h s)) k =
     (if k = r then map_option (\<lambda>d. d\<lparr>highlighted := h\<rparr>) (map_of (notes_data s) r)
      else map_of (notes_data s) k)"
  by (simp_all add: set_highlighted_def map_fst_map_entry map_of_map_entry_at)

lemma other_on_line [simp]:
  "active_notes_list (on_line r f s) = active_notes_list s"
  "active_decay_animations (on_line r f s) = active_decay_animations s"
  "enable_animation (on_line r f s) = enable_animation s"
  "background (on_line r f s) = background s"
  "status_text (on_line r f s) = status_text s"
  "n_rotations (on_line r f s) = n_rotations s"
  by (simp_all add: on_line_def)

lemma other_set_highlighted [simp]:
  "active_notes_list (set_highlighted r h s) = active_notes_list s"
  "active_decay_animations (set_highlighted r h s) = active_decay_animations s"
  "enable_animation (set_highlighted r h s) = enable_animation s"
  "background (set_highlighted r h s) = background s"
  "status_text (set_highlighted r h s) = status_text s"
  "n_rotations (set_highlighted r h s) = n_rotations s"
  by (simp_all add: set_highlighted_def)

lemma static_map_entry:
  "(\<And>d. name (f d) = name d \<and> base_r (f d) = base_r d) \<Longrightarrow>
   map (\<lambda>(k, d). (k, name d, base_r d)) (AList.map_entry r f xs) =
   map (\<lambda>(k, d). (k, name d, base_r d)) xs"
  by (induction xs) auto

lemma static_on_line [simp]: "static_part (on_line r f s) = static_part s"
  by (simp add: static_part_def on_line_def static_map_entry)

lemma static_set_highlighted [simp]: "static_part (set_highlighted r h s) = static_part s"
  by (simp add: static_part_def set_highlighted_def static_map_entry)

lemma static_keys: "map fst (static_part s) = map fst (notes_data s)"
  by (simp add: static_part_def comp_def case_prod_unfold)

lemma static_names:
  "map (\<lambda>(k, d). name d) (notes_data s) = map (\<lambda>(k, n, r). n) (static_part s)"
  by (simp add: static_part_def comp_def case_prod_unfold)

subsection \<open>Cancelling a task\<close>

lemma find_remove1_filter:
  "distinct (map f xs) \<Longrightarrow> find (\<lambda>t. f t = k) xs = Some t \<Longrightarrow>
   remove1 t xs = filter (\<lambda>t. f t \<noteq> k) xs"
proof (induction xs)
  case Nil
  then show ?case by simp
next
  case (Cons x xs)
  show ?case
  proof (cases "f x = k")
    case True
    with Cons.prems have tx: "t = x" by simp
    from Cons.prems(1) have "f x \<notin> f ` set xs" by simp
    with True have "\<forall>y \<in> set xs. f y \<noteq> k" by blast
    then have "filter (\<lambda>t. f t \<noteq> k) xs = xs" by (simp add: filter_id_conv)
    with True tx show ?thesis by simp
  next
    case False
    with Cons.prems have f: "find (\<lambda>t. f t = k) xs = Some t" and d: "distinct (map f xs)" by auto
    from f have "f t = k" by (auto simp: find_Some_iff)
    with False have "t \<noteq> x" by auto
    with False Cons.IH [OF d f] show ?thesis by simp
  qed
qed

lemma find_None_filter:
  "find (\<lambda>t. f t = k) xs = None \<Longrightarrow> filter (\<lambda>t. f t \<noteq> k) xs = xs"
  by (auto simp: find_None_iff filter_id_conv)

lemma find_None_filter_eq:
  "(find (\<lambda>t. f t = k) xs = None) = (filter (\<lambda>t. f t = k) xs = [])"
  by (auto simp: find_None_iff filter_empty_conv)

lemma static_part_updates [simp]:
  "static_part (s\<lparr>active_decay_animations := q\<rparr>) = static_part s"
  "static_part (s\<lparr>active_notes_list := a\<rparr>) = static_part s"
  "static_part (s\<lparr>status_text := x\<rparr>) = static_part s"
  "static_part (s\<lparr>background := g\<rparr>) = static_part s"
  "static_part (s\<lparr>enable_animation := e\<rparr>) = static_part s"
  by (simp_all add: static_part_def)

lemma cancel_other [simp]:
  "active_notes_list (snd (cancel_decay_animation_for_note k b s)) = active_notes_list s"
  "enable_animation (snd (cancel_decay_animation_for_note k b s)) = enable_animation s"
  "background (snd (cancel_decay_animation_for_note k b s)) = background s"
  "status_text (snd (cancel_decay_animation_for_note k b s)) = status_text s"
  "n_rotations (snd (cancel_decay_animation_for_note k b s)) = n_rotations s"
  "static_part (snd (cancel_decay_animation_for_note k b s)) = static_part s"
  by (simp_all add: cancel_decay_animation_for_note_def Let_def split: option.splits)

lemma keys_of_static: "static_part s' = static_part s \<Longrightarrow> map fst (notes_data s') = map fst (notes_data s)"
  using static_keys [of s] static_keys [of s'] by simp

lemma names_of_static:
  assumes "static_part s' = static_part s"
  shows "list_all (\<lambda>(k, d). name_ok (name d)) (notes_data s') =
         list_all (\<lambda>(k, d). name_ok (name d)) (notes_data s)"
proof -
  have "\<And>s. list_all (\<lambda>(k, d). name_ok (name d)) (notes_data s) =
            list_all (\<lambda>(k, n, r). name_ok n) (static_part s)"
    by (simp add: static_part_def list_all_iff case_prod_unfold)
  then show ?thesis using assms by simp
qed

lemma keyset_on_line [simp]:
  "fst ` set (notes_data (on_line r f s)) = fst ` set (notes_data s)"
  using arg_cong [OF notes_on_line(1) [of r f s], of set] by simp

lemma keyset_set_highlighted [simp]:
  "fst ` set (notes_data (set_highlighted r h s)) = fst ` set (notes_data s)"
  using arg_cong [OF notes_set_highlighted(1) [of r h s], of set] by simp

lemma map_of_Some_key: "map_of xs k = Some a \<Longrightarrow> k \<in> fst ` set xs"
  by (auto dest!: map_of_SomeD intro: rev_image_eqI)

lemma cancel_keys [simp]:
  "map fst (notes_data (snd (cancel_decay_animation_for_note k b s))) = map fst (notes_data s)"
  by (rule keys_of_static) simp

lemma cancel_tasks:
  "active_decay_animations (snd (cancel_decay_animation_for_note k b s)) =
     (case find (\<lambda>t. note_key t = k) (active_decay_animations s) of
        None \<Rightarrow> active_decay_animations s
      | Some t \<Rightarrow> remove1 t (active_decay_animations s))"
  by (simp add: cancel_decay_animation_for_note_def Let_def split: option.splits)

lemma cancel_tasks_distinct:
  assumes "distinct (map note_key (active_decay_animations s))"
  shows "active_decay_animations (snd (cancel_decay_animation_for_note k b s)) =
         filter (\<lambda>t. note_key t \<noteq> k) (active_decay_animations s)"
proof (cases "find (\<lambda>t. note_key t = k) (active_decay_animations s)")
  case None
  then show ?thesis by (simp add: cancel_tasks find_None_filter)
next
  case (Some t)
  then show ?thesis using assms by (simp add: cancel_tasks find_remove1_filter)
qed

lemma cancel_notes:
  assumes "list_all (\<lambda>t. line_obj t = note_key t) (active_decay_animations s)"
  shows "map_of (notes_data (snd (cancel_decay_animation_for_note k b s))) k' =
     (if k' = k \<and> tasks_of s k \<noteq> []
      then map_option
             (\<lambda>d. d\<lparr>line := (if b then (line d)\<lparr>alpha := 0, visible := False\<rparr> else line d),
                    highlighted := False\<rparr>)
             (map_of (notes_data s) k)
      else map_of (notes_data s) k')"
proof (cases "find (\<lambda>t. note_key t = k) (active_decay_animations s)")
  case None
  then have "tasks_of s k = []" by (simp add: tasks_of_def find_None_filter_eq)
  with None show ?thesis by (simp add: cancel_decay_animation_for_note_def)
next
  case (Some t)
  then have ne: "tasks_of s k \<noteq> []" 
    using find_None_filter_eq [of note_key k "active_decay_animations s"] by (simp add: tasks_of_def)
  from Some have "t \<in> set (active_decay_animations s)" and nk: "note_key t = k"
    by (auto simp: find_Some_iff)
  with assms have lo: "line_obj t = k" by (auto simp: list_all_iff)
  have absent: "k \<notin> fst ` set (notes_data s) \<Longrightarrow> map_of (notes_data s) k = None"
    by (simp add: map_of_eq_None_iff)
  show ?thesis
    using Some ne lo absent map_of_Some_key [of "notes_data s" k]
    by (cases "map_of (notes_data s) k")
       (auto simp add: cancel_decay_animation_for_note_def Let_def notes_on_line notes_set_highlighted
          map_option_case split: option.splits)
qed

subsection \<open>Adding a task\<close>

lemma find_fst: "map_option fst (find (\<lambda>(k, d). P k) nd) = find P (map fst nd)"
  by (induction nd) auto

lemma find_resolved:
  assumes "distinct (map fst nd)" "find P (map fst nd) = Some k"
  shows "\<exists>d. find (\<lambda>(k, d). P k) nd = Some (k, d) \<and> map_of nd k = Some d"
proof -
  from assms(2) find_fst [of P nd] obtain kd where f: "find (\<lambda>(k, d). P k) nd = Some kd" and "fst kd = k"
    by (cases "find (\<lambda>(k, d). P k) nd") auto
  then obtain d where kd: "kd = (k, d)" by (cases kd) auto
  from f have "kd \<in> set nd" by (auto simp: find_Some_iff in_set_conv_nth)
  with assms(1) kd have "map_of nd k = Some d" by simp
  with f kd show ?thesis by blast
qed

lemma add_note_eq:
  assumes "k \<in> fst ` set (notes_data s)"
  shows "add_note_to_decay_queue k now s =
         Inr ((snd (cancel_decay_animation_for_note k False s))
                \<lparr>active_decay_animations :=
                   active_decay_animations (snd (cancel_decay_animation_for_note k False s)) @
                   [new_task k now]\<rparr>)"
proof -
  let ?s1 = "snd (cancel_decay_animation_for_note k False s)"
  have "set (map fst (notes_data ?s1)) = set (map fst (notes_data s))"
    by (simp only: cancel_keys)
  then have "fst ` set (notes_data ?s1) = fst ` set (notes_data s)"
    by (simp only: set_map)
  with assms have "k \<in> fst ` set (notes_data ?s1)" by simp
  then obtain d where "map_of (notes_data ?s1) k = Some d"
    by (cases "map_of (notes_data ?s1) k") (auto simp: map_of_eq_None_iff)
  then show ?thesis by (simp add: add_note_to_decay_queue_def new_task_def Let_def)
qed

lemma piano_inv_parts:
  assumes "piano_inv s"
  shows "distinct (map fst (notes_data s))"
    and "list_all (\<lambda>(k, d). name_ok (name d)) (notes_data s)"
    and "list_all name_ok (active_notes_list s)"
    and "list_all (\<lambda>t. line_obj t = note_key t) (active_decay_animations s)"
    and "distinct (map note_key (active_decay_animations s))"
    and "list_all (\<lambda>t. note_key t \<in> fst ` set (notes_data s)) (active_decay_animations s)"
    and "list_all (\<lambda>t. 0 < duration t) (active_decay_animations s)"
  using assms by (auto simp: piano_inv_def list_all_iff)

lemma piano_invI:
  assumes "static_part s' = static_part s" "piano_inv s"
    and "list_all name_ok (active_notes_list s')"
    and "list_all (\<lambda>t. note_key t \<in> fst ` set (notes_data s) \<and> line_obj t = note_key t \<and> 0 < duration t)
           (active_decay_animations s')"
    and "distinct (map note_key (active_decay_animations s'))"
  shows "piano_inv s'"
  using assms keys_of_static [OF assms(1)] names_of_static [OF assms(1)]
  by (simp add: piano_inv_def)

subsection \<open>The click handler\<close>

lemma name_ok_of_note:
  "list_all (\<lambda>(k, d). name_ok (name d)) nd \<Longrightarrow> map_of nd k = Some d \<Longrightarrow> name_ok (name d)"
  by (auto simp: list_all_iff dest!: map_of_SomeD)

lemma tasks_of_filtered [simp]:
  "filter (\<lambda>t. note_key t = k) (filter (\<lambda>t. note_key t \<noteq> k) q) = []"
  by (simp add: filter_empty_conv)

lemma list_all_filter: "list_all P xs \<Longrightarrow> list_all P (filter Q xs)"
  by (simp add: list_all_iff)

lemma on_click_press:
  assumes inv: "piano_inv s" and r: "resolve ev s = Some k"
    and d: "map_of (notes_data s) k = Some d"
    and press: "tasks_of s k \<noteq> [] \<or> \<not> highlighted d"
  shows "\<exists>s'. on_click ev now s = Inr s' \<and>
     static_part s' = static_part s \<and> enable_animation s' = enable_animation s \<and>
     background s' = background s \<and> n_rotations s' = n_rotations s \<and>
     display_text (active_notes_list s') = Inr (status_text s') \<and>
     (\<forall>k'. k' \<noteq> k \<longrightarrow> map_of (notes_data s') k' = map_of (notes_data s) k') \<and>
     map_of (notes_data s') k =
       Some (d\<lparr>line := (line d)\<lparr>ydata := base_r d, alpha := 1, visible := True\<rparr>,
               highlighted := True\<rparr>) \<and>
     active_notes_list s' =
       (if name d \<in> set (active_notes_list s) then active_notes_list s
        else active_notes_list s @ [name d]) \<and>
     active_decay_animations s' =
       filter (\<lambda>t. note_key t \<noteq> k) (active_decay_animations s) @
       (if enable_animation s then [new_task k now] else [])"
proof -
  note p = piano_inv_parts [OF inv]
  from r have inax: "inaxes_ax ev" and f: "find (contains ev) (map fst (notes_data s)) = Some k"
    by (auto simp: resolve_def split: if_splits)
  from find_resolved [OF p(1) f] d have fd: "find (\<lambda>(k, d). contains ev k) (notes_data s) = Some (k, d)"
    by auto
  define s1 where "s1 = snd (cancel_decay_animation_for_note k True s)"
  define data where "data = (if tasks_of s k \<noteq> []
               then d\<lparr>line := (line d)\<lparr>alpha := 0, visible := False\<rparr>, highlighted := False\<rparr> else d)"
  have n1: "\<And>k'. map_of (notes_data s1) k' = (if k' = k then Some data else map_of (notes_data s) k')"
    unfolding s1_def data_def using cancel_notes [OF p(4), of k True] d by simp
  have t1: "active_decay_animations s1 = filter (\<lambda>t. note_key t \<noteq> k) (active_decay_animations s)"
    unfolding s1_def by (rule cancel_tasks_distinct [OF p(5)])
  have o1: "active_notes_list s1 = active_notes_list s" "static_part s1 = static_part s"
     "enable_animation s1 = enable_animation s" "background s1 = background s"
     "n_rotations s1 = n_rotations s"
    unfolding s1_def by simp_all
  have nh: "\<not> highlighted data" using press by (simp add: data_def)
  have dn: "name data = name d" "base_r data = base_r d" by (simp_all add: data_def)
  define s3 where "s3 = (let s2 = on_line k (\<lambda>l. l\<lparr>ydata := base_r data, alpha := 1, visible := True\<rparr>)
               (set_highlighted k True s1) in
             if name data \<notin> set (active_notes_list s2)
             then s2\<lparr>active_notes_list := active_notes_list s2 @ [name data]\<rparr> else s2)"
  let ?d' = "d\<lparr>line := (line d)\<lparr>ydata := base_r d, alpha := 1, visible := True\<rparr>,
               highlighted := True\<rparr>"
  have n3: "\<And>k'. map_of (notes_data s3) k' = (if k' = k then Some ?d' else map_of (notes_data s) k')"
    unfolding s3_def by (simp add: Let_def notes_on_line notes_set_highlighted n1 data_def)
  have t3: "active_decay_animations s3 = filter (\<lambda>t. note_key t \<noteq> k) (active_decay_animations s)"
    unfolding s3_def by (simp add: Let_def t1)
  have a3: "active_notes_list s3 =
       (if name d \<in> set (active_notes_list s) then active_notes_list s
        else active_notes_list s @ [name d])"
    unfolding s3_def by (simp add: Let_def o1 dn)
  have st3: "static_part s3 = static_part s" unfolding s3_def by (simp add: Let_def o1)
  have o3: "enable_animation s3 = enable_animation s" "background s3 = background s"
     "n_rotations s3 = n_rotations s" unfolding s3_def by (simp_all add: Let_def o1)
  have k3: "k \<in> fst ` set (notes_data s3)"
    using n3 [of k] by (rule_tac map_of_Some_key) simp
  define s4 where "s4 = (if enable_animation s3
                         then (snd (cancel_decay_animation_for_note k False s3))
                                \<lparr>active_decay_animations :=
                                    active_decay_animations (snd (cancel_decay_animation_for_note k False s3)) @
                                    [new_task k now]\<rparr>
                         else s3)"
  have step: "(if enable_animation s3 then add_note_to_decay_queue k now s3 else Inr s3) = Inr s4"
    unfolding s4_def using add_note_eq [OF k3, of now] by simp
  have l3: "list_all (\<lambda>t. line_obj t = note_key t) (active_decay_animations s3)"
    unfolding t3 by (rule list_all_filter [OF p(4)])
  have d3: "distinct (map note_key (active_decay_animations s3))"
    unfolding t3 using p(5) by (simp add: distinct_map_filter)
  have to3: "tasks_of s3 k = []" unfolding tasks_of_def t3 by simp
  have n4: "\<And>k'. map_of (notes_data s4) k' = (if k' = k then Some ?d' else map_of (notes_data s) k')"
    unfolding s4_def using cancel_notes [OF l3, of k False] to3 n3 by simp
  have t4: "active_decay_animations s4 =
       filter (\<lambda>t. note_key t \<noteq> k) (active_decay_animations s) @
       (if enable_animation s then [new_task k now] else [])"
    unfolding s4_def using cancel_tasks_distinct [OF d3, of k False] t3 o3(1) by simp
  have a4: "active_notes_list s4 = active_notes_list s3" unfolding s4_def by simp
  have st4: "static_part s4 = static_part s" unfolding s4_def using st3 by simp
  have o4: "enable_animation s4 = enable_animation s" "background s4 = background s"
     "n_rotations s4 = n_rotations s" unfolding s4_def using o3 by simp_all
  have nok: "name_ok (name d)" by (rule name_ok_of_note [OF p(2) d])
  have "list_all name_ok (active_notes_list s4)"
    unfolding a4 a3 using p(3) nok by simp
  from update_status_display_ok [OF this] obtain t where
    t: "display_text (active_notes_list s4) = Inr t" "update_status_display s4 = Inr (s4\<lparr>status_text := t\<rparr>)"
    by blast
  have oc0: "on_click ev now s =
      (case (if enable_animation s3 then add_note_to_decay_queue k now s3 else Inr s3) of
         Inl e \<Rightarrow> Inl e | Inr s4 \<Rightarrow> update_status_display s4)"
    using inax fd n1 [of k] nh unfolding s3_def
    by (simp add: on_click_def Let_def s1_def [symmetric])
  have oc: "on_click ev now s = Inr (s4\<lparr>status_text := t\<rparr>)"
    unfolding oc0 step using t(2) by simp
  show ?thesis
    apply (rule exI [of _ "s4\<lparr>status_text := t\<rparr>"])
    using oc st4 o4 t(1) n4 t4 a4 a3 by simp
qed

lemma cancel_none: "tasks_of s k = [] \<Longrightarrow> snd (cancel_decay_animation_for_note k b s) = s"
  by (simp add: cancel_decay_animation_for_note_def tasks_of_def find_None_filter_eq [symmetric])

lemma list_all_remove1: "list_all P xs \<Longrightarrow> list_all P (remove1 x xs)"
  by (auto simp: list_all_iff dest: notin_set_remove1)

lemma on_click_release:
  assumes inv: "piano_inv s" and r: "resolve ev s = Some k"
    and d: "map_of (notes_data s) k = Some d"
    and rel: "tasks_of s k = []" "highlighted d"
  shows "\<exists>s'. on_click ev now s = Inr s' \<and>
     static_part s' = static_part s \<and> enable_animation s' = enable_animation s \<and>
     background s' = background s \<and> n_rotations s' = n_rotations s \<and>
     display_text (active_notes_list s') = Inr (status_text s') \<and>
     (\<forall>k'. k' \<noteq> k \<longrightarrow> map_of (notes_data s') k' = map_of (notes_data s) k') \<and>
     map_of (notes_data s') k =
       Some (d\<lparr>line := (line d)\<lparr>alpha := 0, visible := False\<rparr>, highlighted := False\<rparr>) \<and>
     active_notes_list s' = remove1 (name d) (active_notes_list s) \<and>
     active_decay_animations s' = active_decay_animations s"
proof -
  note p = piano_inv_parts [OF inv]
  from r have inax: "inaxes_ax ev" and f: "find (contains ev) (map fst (notes_data s)) = Some k"
    by (auto simp: resolve_def split: if_splits)
  from find_resolved [OF p(1) f] d have fd: "find (\<lambda>(k, d). contains ev k) (notes_data s) = Some (k, d)"
    by auto
  have s1: "snd (cancel_decay_animation_for_note k True s) = s" by (rule cancel_none [OF rel(1)])
  define s4 where "s4 = (let s2 = on_line k (\<lambda>l. l\<lparr>alpha := 0, visible := False\<rparr>)
                                    (set_highlighted k False s)
                         in if name d \<in> set (active_notes_list s2)
                            then s2\<lparr>active_notes_list := remove1 (name d) (active_notes_list s2)\<rparr>
                            else s2)"
  have oc0: "on_click ev now s = update_status_display s4"
    using inax fd d rel(2) unfolding s4_def
    by (simp add: on_click_def Let_def s1)
  have n4: "\<And>k'. map_of (notes_data s4) k' =
      (if k' = k then Some (d\<lparr>line := (line d)\<lparr>alpha := 0, visible := False\<rparr>, highlighted := False\<rparr>)
       else map_of (notes_data s) k')"
    unfolding s4_def by (simp add: Let_def notes_on_line notes_set_highlighted d)
  have a4: "active_notes_list s4 = remove1 (name d) (active_notes_list s)"
    unfolding s4_def by (simp add: Let_def remove1_idem)
  have t4: "active_decay_animations s4 = active_decay_animations s"
    unfolding s4_def by (simp add: Let_def)
  have st4: "static_part s4 = static_part s" unfolding s4_def by (simp add: Let_def)
  have o4: "enable_animation s4 = enable_animation s" "background s4 = background s"
     "n_rotations s4 = n_rotations s" unfolding s4_def by (simp_all add: Let_def)
  have "list_all name_ok (active_notes_list s4)"
    unfolding a4 by (rule list_all_remove1 [OF p(3)])
  from update_status_display_ok [OF this] obtain t where
    t: "display_text (active_notes_list s4) = Inr t" "update_status_display s4 = Inr (s4\<lparr>status_text := t\<rparr>)"
    by blast
  show ?thesis
    apply (rule exI [of _ "s4\<lparr>status_text := t\<rparr>"])
    using oc0 t st4 o4 n4 t4 a4 by simp
qed

lemma on_click_miss:
  assumes "resolve ev s = None"
  shows "on_click ev now s = Inr s"
proof (cases "inaxes_ax ev")
  case False
  then show ?thesis by (simp add: on_click_def)
next
  case True
  with assms have "find (contains ev) (map fst (notes_data s)) = None" by (simp add: resolve_def)
  with find_fst [of "contains ev" "notes_data s"]
  have "find (\<lambda>(k, d). contains ev k) (notes_data s) = None" by simp
  then show ?thesis by (simp add: on_click_def)
qed

lemma resolve_in_keys:
  assumes "resolve ev s = Some k" "distinct (map fst (notes_data s))"
  shows "\<exists>d. map_of (notes_data s) k = Some d"
proof -
  from assms(1) have "find (contains ev) (map fst (notes_data s)) = Some k"
    by (auto simp: resolve_def split: if_splits)
  from find_resolved [OF assms(2) this] show ?thesis by blast
qed

subsection \<open>The invariant under clicks\<close>

lemma new_tasks_ok:
  assumes p4: "list_all (\<lambda>t. note_key t \<in> set (map fst (notes_data s)) \<and> line_obj t = note_key t \<and> 0 < duration t)
           (active_decay_animations s)"
    and p5: "distinct (map note_key (active_decay_animations s))"
    and k: "k \<in> fst ` set (notes_data s)"
  shows "list_all (\<lambda>t. note_key t \<in> fst ` set (notes_data s) \<and> line_obj t = note_key t \<and> 0 < duration t)
           (filter (\<lambda>t. note_key t \<noteq> k) (active_decay_animations s) @ (if b then [new_task k now] else []))"
    and "distinct (map note_key (filter (\<lambda>t. note_key t \<noteq> k) (active_decay_animations s) @
           (if b then [new_task k now] else [])))"
proof -
  show "list_all (\<lambda>t. note_key t \<in> fst ` set (notes_data s) \<and> line_obj t = note_key t \<and> 0 < duration t)
           (filter (\<lambda>t. note_key t \<noteq> k) (active_decay_animations s) @ (if b then [new_task k now] else []))"
  proof -
    define P where "P = (\<lambda>t::decay_info. note_key t \<in> fst ` set (notes_data s) \<and> line_obj t = note_key t \<and> 0 < duration t)"
    have a: "list_all P (active_decay_animations s)" using p4 by (simp add: P_def)
    have n: "P (new_task k now)" using k by (simp add: P_def new_task_def)
    have "list_all P (filter (\<lambda>t. note_key t \<noteq> k) (active_decay_animations s) @ (if b then [new_task k now] else []))"
      using list_all_filter [OF a, of "\<lambda>t. note_key t \<noteq> k"] n by simp
    then show ?thesis unfolding P_def .
  qed
  have "k \<notin> note_key ` set (filter (\<lambda>t. note_key t \<noteq> k) (active_decay_animations s))"
    by auto
  then show "distinct (map note_key (filter (\<lambda>t. note_key t \<noteq> k) (active_decay_animations s) @
           (if b then [new_task k now] else [])))"
    using p5 by (simp add: new_task_def distinct_map_filter)
qed

lemma piano_inv_tasks:
  "piano_inv s \<Longrightarrow>
   list_all (\<lambda>t. note_key t \<in> set (map fst (notes_data s)) \<and> line_obj t = note_key t \<and> 0 < duration t)
           (active_decay_animations s)"
  by (simp add: piano_inv_def)

lemma on_click_inv:
  assumes inv: "piano_inv s"
  shows "\<exists>s'. on_click ev now s = Inr s' \<and> piano_inv s' \<and> static_part s' = static_part s"
proof (cases "resolve ev s")
  case None
  then show ?thesis using inv by (simp add: on_click_miss)
next
  case (Some k)
  note p = piano_inv_parts [OF inv]
  from resolve_in_keys [OF Some p(1)] obtain d where d: "map_of (notes_data s) k = Some d" by blast
  then have kin: "k \<in> fst ` set (notes_data s)" by (rule map_of_Some_key)
  have nok: "name_ok (name d)" by (rule name_ok_of_note [OF p(2) d])
  show ?thesis
  proof (cases "tasks_of s k \<noteq> [] \<or> \<not> highlighted d")
    case True
    from on_click_press [OF inv Some d True, of now] obtain s' where
      s': "on_click ev now s = Inr s'" "static_part s' = static_part s"
        "active_notes_list s' =
           (if name d \<in> set (active_notes_list s) then active_notes_list s
            else active_notes_list s @ [name d])"
        "active_decay_animations s' =
           filter (\<lambda>t. note_key t \<noteq> k) (active_decay_animations s) @
           (if enable_animation s then [new_task k now] else [])"
      by blast
    have a: "list_all name_ok (active_notes_list s')" using p(3) nok by (simp add: s'(3))
    have "piano_inv s'"
      apply (rule piano_invI [OF s'(2) inv a])
      unfolding s'(4)
       apply (rule new_tasks_ok(1) [OF piano_inv_tasks [OF inv] p(5) kin])
      apply (rule new_tasks_ok(2) [OF piano_inv_tasks [OF inv] p(5) kin])
      done
    with s'(1,2) show ?thesis by blast
  next
    case False
    then have rel: "tasks_of s k = []" "highlighted d" by auto
    from on_click_release [OF inv Some d rel, of now] obtain s' where
      s': "on_click ev now s = Inr s'" "static_part s' = static_part s"
        "active_notes_list s' = remove1 (name d) (active_notes_list s)"
        "active_decay_animations s' = active_decay_animations s"
      by blast
    have a: "list_all name_ok (active_notes_list s')"
      unfolding s'(3) by (rule list_all_remove1 [OF p(3)])
    have "piano_inv s'"
      apply (rule piano_invI [OF s'(2) inv a])
      unfolding s'(4)
      using piano_inv_tasks [OF inv] p(5) by simp_all
    with s'(1,2) show ?thesis by blast
  qed
qed

lemma add_note_inv:
  assumes inv: "piano_inv s" and kin: "k \<in> fst ` set (notes_data s)"
  shows "\<exists>s'. add_note_to_decay_queue k now s = Inr s' \<and> piano_inv s' \<and>
           static_part s' = static_part s \<and> active_notes_list s' = active_notes_list s \<and>
           enable_animation s' = enable_animation s \<and> background s' = background s \<and>
           active_decay_animations s' =
             filter (\<lambda>t. note_key t \<noteq> k) (active_decay_animations s) @ [new_task k now]"
proof -
  note p = piano_inv_parts [OF inv]
  let ?s' = "(snd (cancel_decay_animation_for_note k False s))
                \<lparr>active_decay_animations :=
                   active_decay_animations (snd (cancel_decay_animation_for_note k False s)) @
                   [new_task k now]\<rparr>"
  have e: "add_note_to_decay_queue k now s = Inr ?s'" by (rule add_note_eq [OF kin])
  have t: "active_decay_animations ?s' =
      filter (\<lambda>t. note_key t \<noteq> k) (active_decay_animations s) @ (if True then [new_task k now] else [])"
    by (simp add: cancel_tasks_distinct [OF p(5)])
  have st: "static_part ?s' = static_part s" by simp
  have a: "list_all name_ok (active_notes_list ?s')" using p(3) by simp
  have "piano_inv ?s'"
    apply (rule piano_invI [OF st inv a])
    unfolding t
     apply (rule new_tasks_ok(1) [OF piano_inv_tasks [OF inv] p(5) kin])
    apply (rule new_tasks_ok(2) [OF piano_inv_tasks [OF inv] p(5) kin])
    done
  with e st t show ?thesis by simp
qed

lemma on_line_inv: "piano_inv s \<Longrightarrow> piano_inv (on_line r f s)"
  by (rule piano_invI [of _ s]) (simp_all add: piano_inv_parts piano_inv_tasks [simplified])

subsection \<open>Background capture\<close>

lemma map_of_map_values:
  "map_of (map (\<lambda>(k, d). (k, f d)) nd) k = map_option f (map_of nd k)"
  by (induction nd) auto

lemma recreate_background_eq:
  "recreate_background s =
     s\<lparr>notes_data := map (\<lambda>(k, d). (k, rb_note (enable_animation s) d)) (notes_data s),
       background := Some ()\<rparr>"
  by (cases "background s")
     (auto simp add: recreate_background_def on_initial_draw_capture_def hide_all_lines_def
       restore_highlighted_lines_def rb_note_def comp_def case_prod_unfold)

lemma on_initial_draw_capture_eq:
  "on_initial_draw_capture s =
     (if background s = None
      then s\<lparr>notes_data := map (\<lambda>(k, d). (k, rb_note (enable_animation s) d)) (notes_data s),
             background := Some ()\<rparr>
      else s)"
  by (auto simp add: on_initial_draw_capture_def hide_all_lines_def
       restore_highlighted_lines_def rb_note_def comp_def case_prod_unfold)

lemma static_map_values:
  "(\<And>d. name (f d) = name d \<and> base_r (f d) = base_r d) \<Longrightarrow>
   static_part (s\<lparr>notes_data := map (\<lambda>(k, d). (k, f d)) (notes_data s)\<rparr>) = static_part s"
  by (simp add: static_part_def comp_def case_prod_unfold)

lemma rb_note_static [simp]: "name (rb_note e d) = name d" "base_r (rb_note e d) = base_r d"
  "highlighted (rb_note e d) = highlighted d" "ydata (line (rb_note e d)) = ydata (line d)"
  by (simp_all add: rb_note_def)

lemma recreate_background_fields [simp]:
  "static_part (recreate_background s) = static_part s"
  "active_notes_list (recreate_background s) = active_notes_list s"
  "active_decay_animations (recreate_background s) = active_decay_animations s"
  "enable_animation (recreate_background s) = enable_animation s"
  "background (recreate_background s) = Some ()"
  "n_rotations (recreate_background s) = n_rotations s"
  "map_of (notes_data (recreate_background s)) k =
     map_option (rb_note (enable_animation s)) (map_of (notes_data s) k)"
  by (simp_all add: recreate_background_eq static_map_values map_of_map_values)

lemma on_initial_draw_capture_fields [simp]:
  "static_part (on_initial_draw_capture s) = static_part s"
  "active_notes_list (on_initial_draw_capture s) = active_notes_list s"
  "active_decay_animations (on_initial_draw_capture s) = active_decay_animations s"
  "enable_animation (on_initial_draw_capture s) = enable_animation s"
  "n_rotations (on_initial_draw_capture s) = n_rotations s"
  by (simp_all add: on_initial_draw_capture_eq static_map_values)

lemma tick_note_rb [simp]: "tick_note now t (rb_note e d) = tick_note now t d"
  by (simp add: tick_note_def rb_note_def)

lemma remove_finished_filter:
  "distinct q \<Longrightarrow> remove_finished xs q = filter (\<lambda>t. t \<notin> set xs) q"
proof (induction xs arbitrary: q)
  case Nil
  then show ?case by simp
next
  case (Cons x xs)
  have r1: "remove1 x q = filter (\<lambda>t. t \<noteq> x) q"
    using Cons.prems
    by (simp add: distinct_remove1_removeAll removeAll_filter_not_eq) (auto intro: filter_cong)
  have r: "(if x \<in> set q then remove1 x q else q) = filter (\<lambda>t. t \<noteq> x) q"
  proof (cases "x \<in> set q")
    case True
    then show ?thesis using r1 by simp
  next
    case False
    then have "remove1 x q = q" by (rule remove1_idem)
    with r1 False show ?thesis by simp
  qed
  have "distinct (filter (\<lambda>t. t \<noteq> x) q)" using Cons.prems by simp
  from Cons.IH [OF this] show ?case
    by (simp only: remove_finished.simps r) (auto intro: filter_cong)
qed

subsection \<open>The decay loop\<close>

lemma alpha_written_in_range:
  assumes "0 < duration t" "start_time t \<le> now"
  shows "alpha_in_range (1 - min 1 ((now - start_time t) / duration t))"
proof -
  have "0 \<le> (now - start_time t) / duration t" using assms by simp
  then show ?thesis by (simp add: alpha_in_range_def)
qed

lemma decay_loop_char:
  assumes "distinct (map note_key ts)"
    and "list_all (\<lambda>t. note_key t \<in> fst ` set (notes_data s) \<and> line_obj t = note_key t \<and> 0 < duration t) ts"
    and "list_all (\<lambda>t. start_time t \<le> now) ts"
  shows "\<exists>s'. decay_loop now ts s fin = Inr (s', fin @ filter (\<lambda>t. \<not> progress now t < 1) ts) \<and>
      static_part s' = static_part s \<and> active_notes_list s' = active_notes_list s \<and>
      active_decay_animations s' = active_decay_animations s \<and>
      enable_animation s' = enable_animation s \<and> background s' = background s \<and>
      n_rotations s' = n_rotations s \<and>
      (\<forall>k. map_of (notes_data s') k =
         (case find (\<lambda>t. note_key t = k) ts of
            None \<Rightarrow> map_of (notes_data s) k
          | Some t \<Rightarrow> map_option (tick_note now t) (map_of (notes_data s) k)))"
  using assms
proof (induction ts arbitrary: s fin)
  case Nil
  then show ?case by simp
next
  case (Cons t ts)
  from Cons.prems have dist: "distinct (map note_key ts)" and fresh: "note_key t \<notin> note_key ` set ts"
    and tin: "note_key t \<in> fst ` set (notes_data s)" and lo: "line_obj t = note_key t"
    and dur: "0 < duration t"
    and rest: "list_all (\<lambda>t. note_key t \<in> fst ` set (notes_data s) \<and> line_obj t = note_key t \<and> 0 < duration t) ts"
    and st: "start_time t \<le> now" and started: "list_all (\<lambda>t. start_time t \<le> now) ts"
    by auto
  from tin obtain d where d: "map_of (notes_data s) (note_key t) = Some d"
    by (cases "map_of (notes_data s) (note_key t)") (auto simp: map_of_eq_None_iff)
  have "\<forall>u \<in> set ts. note_key u \<noteq> note_key t"
    using fresh by (metis imageI)
  then have nofind: "find (\<lambda>u. note_key u = note_key t) ts = None"
    by (simp add: find_None_iff)
  define s1 where "s1 = (if progress now t < 1
       then on_line (line_obj t)
            (\<lambda>l. l\<lparr>ydata := map (\<lambda>r. r * (1 - progress now t * (1 - decay_end_factor t))) (base_r d),
                   alpha := 1 - progress now t, visible := True\<rparr>) s
       else set_highlighted (note_key t) False
              (on_line (line_obj t) (\<lambda>l. l\<lparr>alpha := 0, visible := False\<rparr>) s))"
  have keys1: "fst ` set (notes_data s1) = fst ` set (notes_data s)"
    by (simp add: s1_def)
  have o1: "static_part s1 = static_part s" "active_notes_list s1 = active_notes_list s"
      "active_decay_animations s1 = active_decay_animations s"
      "enable_animation s1 = enable_animation s" "background s1 = background s"
      "n_rotations s1 = n_rotations s"
    by (simp_all add: s1_def)
  have n1: "\<And>k. map_of (notes_data s1) k =
      (if k = note_key t then Some (tick_note now t d) else map_of (notes_data s) k)"
    by (simp add: s1_def notes_on_line notes_set_highlighted lo d tick_note_def)
  have unfold: "decay_loop now (t # ts) s fin =
      decay_loop now ts s1 (if progress now t < 1 then fin else fin @ [t])"
    using dur d tin alpha_written_in_range [OF dur st]
    by (simp add: s1_def Let_def progress_def lo)
  have rest1: "list_all (\<lambda>t. note_key t \<in> fst ` set (notes_data s1) \<and> line_obj t = note_key t \<and> 0 < duration t) ts"
    using rest by (simp add: keys1)
  from Cons.IH [OF dist rest1 started, of "if progress now t < 1 then fin else fin @ [t]"]
  obtain s' where s': "decay_loop now ts s1 (if progress now t < 1 then fin else fin @ [t]) =
        Inr (s', (if progress now t < 1 then fin else fin @ [t]) @ filter (\<lambda>t. \<not> progress now t < 1) ts)"
      "static_part s' = static_part s1 \<and> active_notes_list s' = active_notes_list s1 \<and>
      active_decay_animations s' = active_decay_animations s1 \<and>
      enable_animation s' = enable_animation s1 \<and> background s' = background s1 \<and>
      n_rotations s' = n_rotations s1"
      "\<And>k. map_of (notes_data s') k =
         (case find (\<lambda>t. note_key t = k) ts of
            None \<Rightarrow> map_of (notes_data s1) k
          | Some t \<Rightarrow> map_option (tick_note now t) (map_of (notes_data s1) k))"
    by blast
  have a: "decay_loop now (t # ts) s fin = Inr (s', fin @ filter (\<lambda>t. \<not> progress now t < 1) (t # ts))"
    unfolding unfold s'(1) by simp
  have b: "map_of (notes_data s') k =
         (case find (\<lambda>u. note_key u = k) (t # ts) of
            None \<Rightarrow> map_of (notes_data s) k
          | Some u \<Rightarrow> map_option (tick_note now u) (map_of (notes_data s) k))" for k
  proof (cases "k = note_key t")
    case True
    then show ?thesis using s'(3) [of k] nofind n1 [of k] d by simp
  next
    case False
    then have "note_key t \<noteq> k" by simp
    then show ?thesis using s'(3) [of k] n1 [of k] False by (simp split: option.splits)
  qed
  from a b s'(2) o1 show ?case by auto
qed

subsection \<open>The frame tick\<close>

lemma distinct_of_map: "distinct (map f xs) \<Longrightarrow> distinct xs"
  by (simp add: distinct_map)

lemma filter_not_finished:
  "filter (\<lambda>t. t \<notin> set (filter (\<lambda>t. \<not> P t) q)) q = filter P q"
  by (rule filter_cong) auto

lemma tick_char:
  assumes inv: "piano_inv s" and clock: "started_by now s"
  shows "\<exists>s'. update_decay_animations now s = Inr s' \<and> piano_inv s' \<and>
     static_part s' = static_part s \<and> active_notes_list s' = active_notes_list s \<and>
     enable_animation s' = enable_animation s \<and> n_rotations s' = n_rotations s \<and>
     background s' = Some () \<and> display_text (active_notes_list s) = Inr (status_text s') \<and>
     active_decay_animations s' = filter (\<lambda>t. progress now t < 1) (active_decay_animations s) \<and>
     (\<forall>k. map_of (notes_data s') k =
        (case find (\<lambda>t. note_key t = k) (active_decay_animations s) of
           None \<Rightarrow> (if background s = None
                    then map_option (rb_note (enable_animation s)) (map_of (notes_data s) k)
                    else map_of (notes_data s) k)
         | Some t \<Rightarrow> map_option (tick_note now t) (map_of (notes_data s) k)))"
proof -
  note p = piano_inv_parts [OF inv]
  define s0 where "s0 = (if background s = None then recreate_background s else s)"
  have bg: "background s0 \<noteq> None" by (simp add: s0_def)
  have o0: "static_part s0 = static_part s" "active_notes_list s0 = active_notes_list s"
    "active_decay_animations s0 = active_decay_animations s"
    "enable_animation s0 = enable_animation s" "n_rotations s0 = n_rotations s"
    by (simp_all add: s0_def)
  have n0: "\<And>k. map_of (notes_data s0) k =
      (if background s = None then map_option (rb_note (enable_animation s)) (map_of (notes_data s) k)
       else map_of (notes_data s) k)"
    by (simp add: s0_def)
  have keys0: "fst ` set (notes_data s0) = fst ` set (notes_data s)"
    using arg_cong [OF keys_of_static [OF o0(1)], of set] by (simp only: set_map)
  have wf: "list_all (\<lambda>t. note_key t \<in> fst ` set (notes_data s0) \<and> line_obj t = note_key t \<and> 0 < duration t)
             (active_decay_animations s0)"
    unfolding keys0 o0(3) using piano_inv_tasks [OF inv] by simp
  have dist: "distinct (map note_key (active_decay_animations s0))" unfolding o0(3) by (rule p(5))
  have started: "list_all (\<lambda>t. start_time t \<le> now) (active_decay_animations s0)"
    unfolding o0(3) using clock by (simp add: started_by_def)
  from decay_loop_char [OF dist wf started, of "[]"] obtain s1 where
    s1: "decay_loop now (active_decay_animations s0) s0 [] =
           Inr (s1, filter (\<lambda>t. \<not> progress now t < 1) (active_decay_animations s0))"
      "static_part s1 = static_part s0" "active_notes_list s1 = active_notes_list s0"
      "active_decay_animations s1 = active_decay_animations s0"
      "enable_animation s1 = enable_animation s0" "background s1 = background s0"
      "n_rotations s1 = n_rotations s0"
      "\<And>k. map_of (notes_data s1) k =
         (case find (\<lambda>t. note_key t = k) (active_decay_animations s0) of
            None \<Rightarrow> map_of (notes_data s0) k
          | Some t \<Rightarrow> map_option (tick_note now t) (map_of (notes_data s0) k))"
    by auto
  define s2 where "s2 = s1\<lparr>active_decay_animations :=
       remove_finished (filter (\<lambda>t. \<not> progress now t < 1) (active_decay_animations s0))
         (active_decay_animations s1)\<rparr>"
  have t2: "active_decay_animations s2 = filter (\<lambda>t. progress now t < 1) (active_decay_animations s)"
  proof -
    have "active_decay_animations s2 =
        remove_finished (filter (\<lambda>t. \<not> progress now t < 1) (active_decay_animations s0))
         (active_decay_animations s1)"
      by (simp add: s2_def)
    also have "\<dots> = filter (\<lambda>t. t \<notin> set (filter (\<lambda>t. \<not> progress now t < 1) (active_decay_animations s)))
          (active_decay_animations s)"
      unfolding s1(4) o0(3) by (rule remove_finished_filter [OF distinct_of_map [OF p(5)]])
    also have "\<dots> = filter (\<lambda>t. progress now t < 1) (active_decay_animations s)"
      by (rule filter_not_finished)
    finally show ?thesis .
  qed
  have o2: "static_part s2 = static_part s" "active_notes_list s2 = active_notes_list s"
    "enable_animation s2 = enable_animation s" "n_rotations s2 = n_rotations s"
    "background s2 = Some ()"
    using bg by (simp_all add: s2_def s1 o0)
  have n2: "\<And>k. map_of (notes_data s2) k =
        (case find (\<lambda>t. note_key t = k) (active_decay_animations s) of
           None \<Rightarrow> (if background s = None
                    then map_option (rb_note (enable_animation s)) (map_of (notes_data s) k)
                    else map_of (notes_data s) k)
         | Some t \<Rightarrow> map_option (tick_note now t) (map_of (notes_data s) k))"
    unfolding s2_def
    by (simp add: s1(8) o0(3) n0 option.map_comp comp_def split: option.splits)
  have "list_all name_ok (active_notes_list s2)" unfolding o2(2) by (rule p(3))
  from update_status_display_ok [OF this] obtain t where
    t: "display_text (active_notes_list s2) = Inr t" "update_status_display s2 = Inr (s2\<lparr>status_text := t\<rparr>)"
    by blast
  have run: "update_decay_animations now s = Inr (s2\<lparr>status_text := t\<rparr>)"
    using bg s1(1) t(2)
    by (simp add: update_decay_animations_def Let_def s0_def [symmetric] s2_def [symmetric])
  have inv2: "piano_inv (s2\<lparr>status_text := t\<rparr>)"
  proof (rule piano_invI [OF _ inv])
    show "static_part (s2\<lparr>status_text := t\<rparr>) = static_part s" by (simp add: o2)
    show "list_all name_ok (active_notes_list (s2\<lparr>status_text := t\<rparr>))" using p(3) by (simp add: o2)
    show "list_all (\<lambda>t. note_key t \<in> fst ` set (notes_data s) \<and> line_obj t = note_key t \<and> 0 < duration t)
           (active_decay_animations (s2\<lparr>status_text := t\<rparr>))"
      using list_all_filter [OF piano_inv_tasks [OF inv]] by (simp add: t2)
    show "distinct (map note_key (active_decay_animations (s2\<lparr>status_text := t\<rparr>)))"
      using p(5) by (simp add: t2 distinct_map_filter)
  qed
  show ?thesis
    apply (rule exI [of _ "s2\<lparr>status_text := t\<rparr>"])
    using run inv2 o2 t(1) t2 n2 by simp
qed

text \<open>A tick whose clock reading lies before the start of a queued task raises
  \<open>ValueError\<close>: the progress of that task is negative and \<open>set_alpha\<close> gets a value
  above 1.\<close>

lemma decay_loop_raises:
  assumes "list_all (\<lambda>t. note_key t \<in> fst ` set (notes_data s) \<and> 0 < duration t) ts"
    and "\<not> list_all (\<lambda>t. start_time t \<le> now) ts"
  shows "decay_loop now ts s fin = Inl ValueError"
  using assms
proof (induction ts arbitrary: s fin)
  case Nil
  then show ?case by simp
next
  case (Cons t ts)
  from Cons.prems(1) have tin: "note_key t \<in> fst ` set (notes_data s)" and dur: "0 < duration t"
    and rest: "list_all (\<lambda>t. note_key t \<in> fst ` set (notes_data s) \<and> 0 < duration t) ts"
    by auto
  from tin obtain d where d: "map_of (notes_data s) (note_key t) = Some d"
    by (cases "map_of (notes_data s) (note_key t)") (auto simp: map_of_eq_None_iff)
  show ?case
  proof (cases "start_time t \<le> now")
    case False
    then have neg: "(now - start_time t) / duration t < 0"
      using dur by (simp add: divide_neg_pos)
    then have m: "min 1 ((now - start_time t) / duration t) = (now - start_time t) / duration t"
      by simp
    have lt: "now - start_time t < duration t" using False dur by simp
    show ?thesis using dur d neg lt by (simp add: Let_def m alpha_in_range_def)
  next
    case True
    with Cons.prems(2) have late: "\<not> list_all (\<lambda>t. start_time t \<le> now) ts" by simp
    define s1 where "s1 = (if progress now t < 1
       then on_line (line_obj t)
            (\<lambda>l. l\<lparr>ydata := map (\<lambda>r. r * (1 - progress now t * (1 - decay_end_factor t))) (base_r d),
                   alpha := 1 - progress now t, visible := True\<rparr>) s
       else set_highlighted (note_key t) False
              (on_line (line_obj t) (\<lambda>l. l\<lparr>alpha := 0, visible := False\<rparr>) s))"
    have keys1: "fst ` set (notes_data s1) = fst ` set (notes_data s)"
      by (simp add: s1_def)
    have unfold: "decay_loop now (t # ts) s fin =
        decay_loop now ts s1 (if progress now t < 1 then fin else fin @ [t])"
      using dur d tin alpha_written_in_range [OF dur True]
      by (simp add: s1_def Let_def progress_def notes_on_line(1))
    have rest1: "list_all (\<lambda>t. note_key t \<in> fst ` set (notes_data s1) \<and> 0 < duration t) ts"
      using rest by (simp add: keys1)
    show ?thesis unfolding unfold by (rule Cons.IH [OF rest1 late])
  qed
qed

lemma tick_raises:
  assumes inv: "piano_inv s" and late: "\<not> started_by now s"
  shows "update_decay_animations now s = Inl ValueError"
proof -
  define s0 where "s0 = (if background s = None then recreate_background s else s)"
  have bg: "background s0 \<noteq> None" by (simp add: s0_def)
  have o0: "static_part s0 = static_part s" "active_decay_animations s0 = active_decay_animations s"
    by (simp_all add: s0_def)
  have keys0: "fst ` set (notes_data s0) = fst ` set (notes_data s)"
    using arg_cong [OF keys_of_static [OF o0(1)], of set] by (simp only: set_map)
  have wf: "list_all (\<lambda>t. note_key t \<in> fst ` set (notes_data s0) \<and> 0 < duration t)
             (active_decay_animations s0)"
    unfolding keys0 o0(2) using piano_inv_tasks [OF inv] by (simp add: list_all_iff)
  have "\<not> list_all (\<lambda>t. start_time t \<le> now) (active_decay_animations s0)"
    unfolding o0(2) using late by (simp add: started_by_def)
  from decay_loop_raises [OF wf this] have
    "decay_loop now (active_decay_animations s0) s0 [] = Inl ValueError" .
  then show ?thesis
    using bg by (simp add: update_decay_animations_def Let_def s0_def [symmetric])
qed

subsection \<open>Key presses and runs\<close>

lemma keyset_of_static: "static_part s' = static_part s \<Longrightarrow> fst ` set (notes_data s') = fst ` set (notes_data s)"
  using arg_cong [OF keys_of_static, of s' s set] by (simp only: set_map)

lemma piano_inv_same_lists:
  assumes "piano_inv s" "static_part s' = static_part s"
    "active_notes_list s' = active_notes_list s"
    "active_decay_animations s' = active_decay_animations s"
  shows "piano_inv s'"
  apply (rule piano_invI [OF assms(2) assms(1)])
  using piano_inv_parts [OF assms(1)] piano_inv_tasks [OF assms(1)] by (simp_all add: assms(3,4))

lemma batch_loop_inv:
  "piano_inv s \<Longrightarrow> set ks \<subseteq> fst ` set (notes_data s) \<Longrightarrow>
   \<exists>s'. batch_loop ks now s = Inr s' \<and> piano_inv s' \<and> static_part s' = static_part s \<and>
        enable_animation s' = enable_animation s \<and> background s' = background s"
proof (induction ks arbitrary: s)
  case Nil
  then show ?case by simp
next
  case (Cons k ks)
  from Cons.prems have kin: "k \<in> fst ` set (notes_data s)" by simp
  then obtain d where d: "map_of (notes_data s) k = Some d"
    by (cases "map_of (notes_data s) k") (auto simp: map_of_eq_None_iff)
  define s1 where "s1 = on_line k (\<lambda>l. l\<lparr>ydata := base_r d, alpha := 1, visible := True\<rparr>) s"
  have i1: "piano_inv s1" unfolding s1_def by (rule on_line_inv [OF Cons.prems(1)])
  have k1: "k \<in> fst ` set (notes_data s1)" using kin by (simp add: s1_def)
  from add_note_inv [OF i1 k1, of now] obtain s2 where
    s2: "add_note_to_decay_queue k now s1 = Inr s2" "piano_inv s2" "static_part s2 = static_part s1"
      "enable_animation s2 = enable_animation s1" "background s2 = background s1"
    by blast
  have st2: "static_part s2 = static_part s" by (simp add: s2(3) s1_def)
  have "set ks \<subseteq> fst ` set (notes_data s2)"
    using Cons.prems(2) by (simp add: keyset_of_static [OF st2])
  from Cons.IH [OF s2(2) this] obtain s' where
    s': "batch_loop ks now s2 = Inr s'" "piano_inv s'" "static_part s' = static_part s2"
      "enable_animation s' = enable_animation s2" "background s' = background s2"
    by blast
  have "batch_loop (k # ks) now s = Inr s'"
    using d s2(1) s'(1) by (simp add: s1_def)
  with s' st2 s2(4,5) show ?case by (simp add: s1_def)
qed

lemma display_text_empty: "display_text [] = Inr ''Active Notes: None''"
  by (simp add: display_text_def)

lemma trigger_batch_decay_inv:
  assumes inv: "piano_inv s"
  shows "\<exists>s'. trigger_batch_decay f now s = Inr s' \<and> piano_inv s' \<and> static_part s' = static_part s \<and>
        enable_animation s' = enable_animation s \<and> background s' = background s"
proof (cases "\<not> enable_animation s \<and> \<not> f")
  case True
  then show ?thesis using inv by (simp add: trigger_batch_decay_def)
next
  case False
  define s1 where "s1 = s\<lparr>active_notes_list := [], status_text := ''Active Notes: None''\<rparr>"
  have u: "update_status_display (s\<lparr>active_notes_list := []\<rparr>) = Inr s1"
    by (simp add: update_status_display_def display_text_empty s1_def)
  have i1: "piano_inv s1"
    apply (rule piano_invI [OF _ inv])
    using piano_inv_parts [OF inv] piano_inv_tasks [OF inv] by (simp_all add: s1_def)
  have st1: "static_part s1 = static_part s" by (simp add: s1_def)
  have "set (map fst (filter (\<lambda>(k, d). highlighted d) (notes_data s))) \<subseteq> fst ` set (notes_data s1)"
    by (auto simp: s1_def)
  from batch_loop_inv [OF i1 this, of now] obtain s' where
    s': "batch_loop (map fst (filter (\<lambda>(k, d). highlighted d) (notes_data s))) now s1 = Inr s'"
      "piano_inv s'" "static_part s' = static_part s1"
      "enable_animation s' = enable_animation s1" "background s' = background s1"
    by blast
  have "trigger_batch_decay f now s = Inr s'"
    using False u s'(1) by (auto simp add: trigger_batch_decay_def Let_def)
  with s' st1 show ?thesis by (simp add: s1_def)
qed

lemma space_does_nothing: "on_key_press '' '' now s = Inr s"
  by (simp add: on_key_press_def trigger_batch_decay_def)

lemma recreate_background_inv: "piano_inv s \<Longrightarrow> piano_inv (recreate_background s)"
  by (rule piano_inv_same_lists [of s]) simp_all

lemma on_initial_draw_capture_inv: "piano_inv s \<Longrightarrow> piano_inv (on_initial_draw_capture s)"
  by (rule piano_inv_same_lists [of s]) simp_all

lemma on_key_press_inv:
  assumes inv: "piano_inv s"
  shows "\<exists>s'. on_key_press key now s = Inr s' \<and> piano_inv s' \<and> static_part s' = static_part s"
proof (cases "key = '' ''")
  case True
  then show ?thesis using inv by (simp add: space_does_nothing)
next
  case notspace: False
  show ?thesis
  proof (cases "key = ''a''")
    case False
    with notspace inv show ?thesis by (simp add: on_key_press_def)
  next
    case True
    define s2 where "s2 = (recreate_background s)\<lparr>enable_animation := \<not> enable_animation (recreate_background s)\<rparr>"
    have i2: "piano_inv s2"
      by (rule piano_inv_same_lists [OF inv]) (simp_all add: s2_def)
    have st2: "static_part s2 = static_part s" by (simp add: s2_def)
    show ?thesis
    proof (cases "enable_animation s2 \<and> active_notes_list s2 \<noteq> []")
      case False
      then have "on_key_press key now s = Inr s2"
        using True by (auto simp add: on_key_press_def Let_def s2_def)
      with i2 st2 show ?thesis by simp
    next
      case batch: True
      from trigger_batch_decay_inv [OF i2, of True now] obtain s' where
        s': "trigger_batch_decay True now s2 = Inr s'" "piano_inv s'" "static_part s' = static_part s2"
        by blast
      have "on_key_press key now s = Inr s'"
        using True batch s'(1) by (auto simp add: on_key_press_def Let_def s2_def)
      with s' st2 show ?thesis by simp
    qed
  qed
qed

subsection \<open>The clock\<close>

lemma started_by_mono: "started_by c s \<Longrightarrow> c \<le> c' \<Longrightarrow> started_by c' s"
  by (auto simp: started_by_def list_all_iff)

lemma queue_from_started:
  assumes "started_by c s" "c \<le> now" "queue_from now s s'"
  shows "started_by now s'"
  unfolding started_by_def list_all_iff
proof
  fix t assume "t \<in> set (active_decay_animations s')"
  with assms(3) have "t \<in> set (active_decay_animations s) \<or> start_time t = now"
    by (simp add: queue_from_def list_all_iff)
  then show "start_time t \<le> now"
  proof
    assume "t \<in> set (active_decay_animations s)"
    with assms(1) have "start_time t \<le> c" by (simp add: started_by_def list_all_iff)
    with assms(2) show ?thesis by simp
  next
    assume "start_time t = now"
    then show ?thesis by simp
  qed
qed

lemma queue_from_same:
  "active_decay_animations s' = active_decay_animations s \<Longrightarrow> queue_from now s s'"
  by (simp add: queue_from_def list_all_iff)

lemma queue_from_trans:
  assumes "queue_from now s s1" "queue_from now s1 s2"
  shows "queue_from now s s2"
  unfolding queue_from_def list_all_iff
proof
  fix t assume "t \<in> set (active_decay_animations s2)"
  with assms(2) have "t \<in> set (active_decay_animations s1) \<or> start_time t = now"
    by (simp add: queue_from_def list_all_iff)
  then show "t \<in> set (active_decay_animations s) \<or> start_time t = now"
  proof
    assume "t \<in> set (active_decay_animations s1)"
    with assms(1) show ?thesis by (simp add: queue_from_def list_all_iff)
  next
    assume "start_time t = now"
    then show ?thesis by simp
  qed
qed

lemma queue_from_press:
  assumes "active_decay_animations s' =
       filter (\<lambda>t. note_key t \<noteq> k) (active_decay_animations s) @
       (if b then [new_task k now] else [])"
  shows "queue_from now s s'"
  unfolding queue_from_def assms list_all_iff by (auto simp: new_task_def)

lemma add_note_queue_from:
  assumes "piano_inv s" "k \<in> fst ` set (notes_data s)" "add_note_to_decay_queue k now s = Inr s'"
  shows "queue_from now s s'"
proof -
  from add_note_inv [OF assms(1,2), of now] assms(3) have
    "active_decay_animations s' =
       filter (\<lambda>t. note_key t \<noteq> k) (active_decay_animations s) @
       (if True then [new_task k now] else [])"
    by auto
  then show ?thesis by (rule queue_from_press)
qed

lemma on_click_queue_from:
  assumes inv: "piano_inv s" and oc: "on_click ev now s = Inr s'"
  shows "queue_from now s s'"
proof (cases "resolve ev s")
  case None
  with oc have "s' = s" by (simp add: on_click_miss)
  then show ?thesis by (simp add: queue_from_same)
next
  case (Some k)
  from resolve_in_keys [OF Some piano_inv_parts(1) [OF inv]] obtain d where
    d: "map_of (notes_data s) k = Some d" by blast
  show ?thesis
  proof (cases "tasks_of s k \<noteq> [] \<or> \<not> highlighted d")
    case True
    from on_click_press [OF inv Some d True, of now] oc have
      "active_decay_animations s' =
         filter (\<lambda>t. note_key t \<noteq> k) (active_decay_animations s) @
         (if enable_animation s then [new_task k now] else [])"
      by auto
    then show ?thesis by (rule queue_from_press)
  next
    case False
    then have rel: "tasks_of s k = []" "highlighted d" by auto
    from on_click_release [OF inv Some d rel, of now] oc have
      "active_decay_animations s' = active_decay_animations s" by auto
    then show ?thesis by (rule queue_from_same)
  qed
qed

lemma batch_loop_queue_from:
  "piano_inv s \<Longrightarrow> set ks \<subseteq> fst ` set (notes_data s) \<Longrightarrow> batch_loop ks now s = Inr s' \<Longrightarrow>
   queue_from now s s'"
proof (induction ks arbitrary: s)
  case Nil
  then show ?case by (simp add: queue_from_same)
next
  case (Cons k ks)
  from Cons.prems have kin: "k \<in> fst ` set (notes_data s)" by simp
  then obtain d where d: "map_of (notes_data s) k = Some d"
    by (cases "map_of (notes_data s) k") (auto simp: map_of_eq_None_iff)
  define s1 where "s1 = on_line k (\<lambda>l. l\<lparr>ydata := base_r d, alpha := 1, visible := True\<rparr>) s"
  have i1: "piano_inv s1" unfolding s1_def by (rule on_line_inv [OF Cons.prems(1)])
  have k1: "k \<in> fst ` set (notes_data s1)" using kin by (simp add: s1_def)
  from add_note_inv [OF i1 k1, of now] obtain s2 where
    s2: "add_note_to_decay_queue k now s1 = Inr s2" "piano_inv s2" "static_part s2 = static_part s1"
    by blast
  have q1: "queue_from now s s1" by (rule queue_from_same) (simp add: s1_def)
  have q2: "queue_from now s1 s2" by (rule add_note_queue_from [OF i1 k1 s2(1)])
  have st2: "static_part s2 = static_part s" by (simp add: s2(3) s1_def)
  have ks: "set ks \<subseteq> fst ` set (notes_data s2)"
    using Cons.prems(2) by (simp add: keyset_of_static [OF st2])
  have "batch_loop ks now s2 = Inr s'"
    using Cons.prems(3) d s2(1) by (simp add: s1_def)
  from Cons.IH [OF s2(2) ks this] have "queue_from now s2 s'" .
  with queue_from_trans [OF q1 q2] show ?case by (rule queue_from_trans)
qed

lemma trigger_batch_decay_queue_from:
  assumes inv: "piano_inv s" and tb: "trigger_batch_decay f now s = Inr s'"
  shows "queue_from now s s'"
proof (cases "\<not> enable_animation s \<and> \<not> f")
  case True
  with tb have "s' = s" by (simp add: trigger_batch_decay_def)
  then show ?thesis by (simp add: queue_from_same)
next
  case False
  define s1 where "s1 = s\<lparr>active_notes_list := [], status_text := ''Active Notes: None''\<rparr>"
  have u: "update_status_display (s\<lparr>active_notes_list := []\<rparr>) = Inr s1"
    by (simp add: update_status_display_def display_text_empty s1_def)
  have i1: "piano_inv s1"
    apply (rule piano_invI [OF _ inv])
    using piano_inv_parts [OF inv] piano_inv_tasks [OF inv] by (simp_all add: s1_def)
  have ks: "set (map fst (filter (\<lambda>(k, d). highlighted d) (notes_data s))) \<subseteq> fst ` set (notes_data s1)"
    by (auto simp: s1_def)
  have "batch_loop (map fst (filter (\<lambda>(k, d). highlighted d) (notes_data s))) now s1 = Inr s'"
    using False u tb by (auto simp add: trigger_batch_decay_def Let_def)
  from batch_loop_queue_from [OF i1 ks this] have "queue_from now s1 s'" .
  moreover have "queue_from now s s1" by (rule queue_from_same) (simp add: s1_def)
  ultimately show ?thesis by (rule queue_from_trans [rotated])
qed

lemma on_key_press_queue_from:
  assumes inv: "piano_inv s" and kp: "on_key_press key now s = Inr s'"
  shows "queue_from now s s'"
proof (cases "key = '' ''")
  case True
  with kp have "s' = s" by (simp add: space_does_nothing)
  then show ?thesis by (simp add: queue_from_same)
next
  case notspace: False
  show ?thesis
  proof (cases "key = ''a''")
    case False
    with notspace kp have "s' = s" by (simp add: on_key_press_def)
    then show ?thesis by (simp add: queue_from_same)
  next
    case True
    define s2 where "s2 = (recreate_background s)\<lparr>enable_animation := \<not> enable_animation (recreate_background s)\<rparr>"
    have i2: "piano_inv s2"
      by (rule piano_inv_same_lists [OF inv]) (simp_all add: s2_def)
    have q2: "queue_from now s s2" by (rule queue_from_same) (simp add: s2_def)
    show ?thesis
    proof (cases "enable_animation s2 \<and> active_notes_list s2 \<noteq> []")
      case False
      then have "on_key_press key now s = Inr s2"
        using True by (auto simp add: on_key_press_def Let_def s2_def)
      with kp q2 show ?thesis by simp
    next
      case batch: True
      have "on_key_press key now s = trigger_batch_decay True now s2"
        using True batch by (auto simp add: on_key_press_def Let_def s2_def)
      with kp have "trigger_batch_decay True now s2 = Inr s'" by simp
      from trigger_batch_decay_queue_from [OF i2 this] q2 show ?thesis
        by (rule queue_from_trans [rotated])
    qed
  qed
qed

lemma clock_ok_Cons:
  "clock_ok c (e # es) = (c \<le> clock_after c e \<and> clock_ok (clock_after c e) es)"
  by (cases e) simp_all

lemma step_inv:
  assumes "piano_inv s" and "started_by c s" and "c \<le> clock_after c e"
  shows "\<exists>s'. step e s = Inr s' \<and> piano_inv s' \<and> static_part s' = static_part s \<and>
           started_by (clock_after c e) s'"
proof (cases e)
  case (Click ev now)
  from on_click_inv [OF assms(1), of ev now] obtain s' where
    s': "on_click ev now s = Inr s'" "piano_inv s'" "static_part s' = static_part s" by blast
  from assms(3) Click have le: "c \<le> now" by simp
  have "started_by now s'"
    by (rule queue_from_started [OF assms(2) le on_click_queue_from [OF assms(1) s'(1)]])
  with s' Click show ?thesis by simp
next
  case (KeyPress key now)
  from on_key_press_inv [OF assms(1), of key now] obtain s' where
    s': "on_key_press key now s = Inr s'" "piano_inv s'" "static_part s' = static_part s" by blast
  from assms(3) KeyPress have le: "c \<le> now" by simp
  have "started_by now s'"
    by (rule queue_from_started [OF assms(2) le on_key_press_queue_from [OF assms(1) s'(1)]])
  with s' KeyPress show ?thesis by simp
next
  case (Tick now)
  from assms(3) Tick have le: "c \<le> now" by simp
  have st: "started_by now s" by (rule started_by_mono [OF assms(2) le])
  from tick_char [OF assms(1) st] obtain s' where
    s': "update_decay_animations now s = Inr s'" "piano_inv s'" "static_part s' = static_part s"
      "active_decay_animations s' = filter (\<lambda>t. progress now t < 1) (active_decay_animations s)"
    by blast
  have "started_by now s'"
    using st by (simp add: started_by_def s'(4) list_all_iff)
  with s' Tick show ?thesis by simp
next
  case DrawEvent
  have "started_by c (on_initial_draw_capture s)"
    using assms(2) by (simp add: started_by_def)
  with DrawEvent on_initial_draw_capture_inv [OF assms(1)] show ?thesis by simp
qed

text \<open>Whatever the clock does, a step that returns keeps the invariant.\<close>

lemma step_keeps_inv:
  assumes "piano_inv s" and "step e s = Inr s'"
  shows "piano_inv s' \<and> static_part s' = static_part s"
proof (cases e)
  case (Click ev now)
  with on_click_inv [OF assms(1), of ev now] assms(2) show ?thesis by auto
next
  case (KeyPress key now)
  with on_key_press_inv [OF assms(1), of key now] assms(2) show ?thesis by auto
next
  case (Tick now)
  show ?thesis
  proof (cases "started_by now s")
    case True
    from tick_char [OF assms(1) True] obtain s2 where
      "update_decay_animations now s = Inr s2" "piano_inv s2" "static_part s2 = static_part s"
      by blast
    with Tick assms(2) show ?thesis by simp
  next
    case False
    from tick_raises [OF assms(1) False] Tick assms(2) show ?thesis by simp
  qed
next
  case DrawEvent
  with on_initial_draw_capture_inv [OF assms(1)] assms(2) show ?thesis by auto
qed

lemma run_keeps_inv:
  "piano_inv s \<Longrightarrow> run evs s = Inr s' \<Longrightarrow> piano_inv s' \<and> static_part s' = static_part s"
proof (induction evs arbitrary: s)
  case Nil
  then show ?case by simp
next
  case (Cons e evs)
  from Cons.prems(2) obtain s1 where s1: "step e s = Inr s1" "run evs s1 = Inr s'"
    by (cases "step e s") simp_all
  from step_keeps_inv [OF Cons.prems(1) s1(1)] have i1: "piano_inv s1" "static_part s1 = static_part s"
    by simp_all
  from Cons.IH [OF i1(1) s1(2)] i1(2) show ?case by simp
qed

lemma run_inv:
  "piano_inv s \<Longrightarrow> started_by c s \<Longrightarrow> clock_ok c evs \<Longrightarrow>
   \<exists>s'. run evs s = Inr s' \<and> piano_inv s' \<and> static_part s' = static_part s"
proof (induction evs arbitrary: s c)
  case Nil
  then show ?case by simp
next
  case (Cons e evs)
  from Cons.prems(3) have le: "c \<le> clock_after c e" and rest: "clock_ok (clock_after c e) evs"
    by (simp_all add: clock_ok_Cons)
  from step_inv [OF Cons.prems(1,2) le] obtain s1 where
    s1: "step e s = Inr s1" "piano_inv s1" "static_part s1 = static_part s"
      "started_by (clock_after c e) s1" by blast
  from Cons.IH [OF s1(2,4) rest] obtain s' where
    "run evs s1 = Inr s'" "piano_inv s'" "static_part s' = static_part s1" by blast
  with s1 show ?case by simp
qed

subsection \<open>The initial state\<close>

lemma init_piano_eq: "init_piano n enable = Inr (initial_state n enable)"
  by (simp add: init_piano_def draw_notes_segments_eq update_status_display_def
      display_text_empty initial_state_def)

lemma semitone_index:
  assumes "i < 12"
  shows "\<exists>j. index_of semitone_names (rstrip (CHR ''#'') (semitone_names ! i)) = Inr j"
proof -
  from assms have "i = 0 \<or> i = 1 \<or> i = 2 \<or> i = 3 \<or> i = 4 \<or> i = 5 \<or> i = 6 \<or> i = 7 \<or>
      i = 8 \<or> i = 9 \<or> i = 10 \<or> i = 11" by arith
  then show ?thesis
    by (elim disjE) (simp_all add: semitone_names_def rstrip_def)
qed

lemma name_ok_note_name:
  assumes "oi < 9" "i < 12"
  shows "name_ok (semitone_names ! i @ str_nat (oi + 1))"
proof -
  from assms(1) have "str_nat (Suc oi) = [''0123456789'' ! Suc oi]"
    by (subst str_nat.simps) simp
  then obtain c where s: "str_nat (Suc oi) = [c]" by blast
  from semitone_index [OF assms(2)] obtain j where
    "index_of semitone_names (rstrip (CHR ''#'') (semitone_names ! i)) = Inr j" by blast
  then show ?thesis
    by (simp add: name_ok_def note_sort_key_def s)
qed

lemma initial_state_inv:
  assumes "n \<le> 9"
  shows "piano_inv (initial_state n enable)"
proof -
  have "list_all (\<lambda>(k, d). name_ok (name d)) (map (\<lambda>k. (k, note_of k)) (note_keys n))"
    unfolding list_all_iff
  proof
    fix x assume "x \<in> set (map (\<lambda>k. (k, note_of k)) (note_keys n))"
    then obtain k where k: "k \<in> set (note_keys n)" and x: "x = (k, note_of k)" by auto
    from k assms have "fst k < 9" "snd k < 12" by (auto simp: set_note_keys)
    from name_ok_note_name [OF this] show "case x of (k, d) \<Rightarrow> name_ok (name d)"
      by (simp add: x note_of_def new_note_def)
  qed
  then show ?thesis
    by (simp add: piano_inv_def initial_state_def comp_def distinct_note_keys)
qed

lemma initial_notes:
  "map_of (notes_data (initial_state n enable)) k =
     (if fst k < n \<and> snd k < 12 then Some (note_of k) else None)"
  by (simp add: initial_state_def map_of_graph set_note_keys)

lemma initial_keys: "map fst (notes_data (initial_state n enable)) = note_keys n"
  by (simp add: initial_state_def comp_def)

subsection \<open>Clicks on a named key\<close>

lemma find_eq_key: "k \<in> set ks \<Longrightarrow> find (\<lambda>k'. k' = k) ks = Some k"
  by (induction ks) auto

lemma resolve_click_on:
  "k \<in> set (map fst (notes_data s)) \<Longrightarrow> resolve (click_on k) s = Some k"
  by (simp add: resolve_def click_on_def find_eq_key)

lemma resolve_static:
  "static_part s' = static_part s \<Longrightarrow> resolve ev s' = resolve ev s"
  using keys_of_static [of s' s] by (simp add: resolve_def)

lemma tasks_of_other:
  "k' \<noteq> k \<Longrightarrow>
   filter (\<lambda>t. note_key t = k') (filter (\<lambda>t. note_key t \<noteq> k) q @ (if b then [new_task k now] else [])) =
   filter (\<lambda>t. note_key t = k') q"
proof -
  assume ne: "k' \<noteq> k"
  have "filter (\<lambda>t. note_key t = k') (filter (\<lambda>t. note_key t \<noteq> k) q) = filter (\<lambda>t. note_key t = k') q"
    using ne by (auto intro: filter_cong)
  moreover have "filter (\<lambda>t. note_key t = k') (if b then [new_task k now] else []) = []"
    using ne by (simp add: new_task_def)
  ultimately show ?thesis by simp
qed

lemma initial_fields:
  "active_notes_list (initial_state n e) = []"
  "active_decay_animations (initial_state n e) = []"
  "enable_animation (initial_state n e) = e"
  "background (initial_state n e) = None"
  "n_rotations (initial_state n e) = n"
  by (simp_all add: initial_state_def)

lemma c3_key: "(2, 0) \<in> set (note_keys 5)" "(2, 4) \<in> set (note_keys 5)" "(0, 0) \<in> set (note_keys 5)"
  by (simp_all add: set_note_keys)

lemma key_a_switches_off:
  "enable_animation s \<Longrightarrow>
   on_key_press ''a'' now s = Inr ((recreate_background s)\<lparr>enable_animation := False\<rparr>)"
  by (simp add: on_key_press_def Let_def)

lemma tasks_of_after_press:
  "filter (\<lambda>t. note_key t = k)
     (filter (\<lambda>t. note_key t \<noteq> k) q @ (if b then [new_task k now] else [])) =
   (if b then [new_task k now] else [])"
  by (simp add: new_task_def)

lemma first_click:
  assumes "n \<le> 9" "k \<in> set (note_keys n)"
  shows "\<exists>s1. on_click (click_on k) now (initial_state n e) = Inr s1 \<and> piano_inv s1 \<and>
     static_part s1 = static_part (initial_state n e) \<and>
     enable_animation s1 = e \<and> background s1 = None \<and>
     display_text [name (note_of k)] = Inr (status_text s1) \<and>
     map_of (notes_data s1) k =
       Some ((note_of k)\<lparr>line := (line (note_of k))\<lparr>ydata := base_r (note_of k), alpha := 1, visible := True\<rparr>,
               highlighted := True\<rparr>) \<and>
     active_notes_list s1 = [name (note_of k)] \<and>
     active_decay_animations s1 = (if e then [new_task k now] else [])"
proof -
  let ?s = "initial_state n e"
  have inv: "piano_inv ?s" by (rule initial_state_inv [OF assms(1)])
  have r: "resolve (click_on k) ?s = Some k"
    by (rule resolve_click_on) (simp add: initial_keys assms(2))
  have d: "map_of (notes_data ?s) k = Some (note_of k)"
    using assms(2) by (simp add: initial_notes set_note_keys)
  have press: "tasks_of ?s k \<noteq> [] \<or> \<not> highlighted (note_of k)"
    by (simp add: note_of_def new_note_def)
  from on_click_press [OF inv r d press, of now] obtain s' where
    s': "on_click (click_on k) now ?s = Inr s'" "static_part s' = static_part ?s"
      "enable_animation s' = enable_animation ?s" "background s' = background ?s"
      "display_text (active_notes_list s') = Inr (status_text s')"
      "map_of (notes_data s') k =
       Some ((note_of k)\<lparr>line := (line (note_of k))\<lparr>ydata := base_r (note_of k), alpha := 1, visible := True\<rparr>,
               highlighted := True\<rparr>)"
      "active_notes_list s' =
       (if name (note_of k) \<in> set (active_notes_list ?s) then active_notes_list ?s
        else active_notes_list ?s @ [name (note_of k)])"
      "active_decay_animations s' =
       filter (\<lambda>t. note_key t \<noteq> k) (active_decay_animations ?s) @
       (if enable_animation ?s then [new_task k now] else [])"
    by blast
  from on_click_inv [OF inv, of "click_on k" now] s'(1) have inv': "piano_inv s'" by auto
  have a: "active_notes_list s' = [name (note_of k)]" using s'(7) by (simp add: initial_fields)
  have t: "active_decay_animations s' = (if e then [new_task k now] else [])"
    using s'(8) by (simp add: initial_fields)
  show ?thesis
    apply (rule exI [of _ s'])
    using s'(1,2,3,4,6) s'(5) [unfolded a] inv' a t by (simp add: initial_fields)
qed

lemma note_of_c3: "name (note_of (2, 0)) = ''C3''" "name (note_of (2, 4)) = ''E3''"
  by (simp_all add: note_of_def new_note_def semitone_names_def str_nat.simps [of 3])

subsection \<open>Ticks between two clicks\<close>

lemma find_task_of:
  assumes "tasks_of s k \<noteq> []"
  shows "\<exists>t. find (\<lambda>t. note_key t = k) (active_decay_animations s) = Some t \<and> note_key t = k"
proof -
  from assms have "find (\<lambda>t. note_key t = k) (active_decay_animations s) \<noteq> None"
    by (simp add: tasks_of_def find_None_filter_eq)
  then obtain t where t: "find (\<lambda>t. note_key t = k) (active_decay_animations s) = Some t" by auto
  then have "note_key t = k" by (auto simp: find_Some_iff)
  with t show ?thesis by blast
qed

lemma find_no_task:
  "tasks_of s k = [] \<Longrightarrow> find (\<lambda>t. note_key t = k) (active_decay_animations s) = None"
  by (simp add: tasks_of_def find_None_filter_eq)

lemma filter_started_by:
  assumes "started_by c s" "active_decay_animations s' = filter P (active_decay_animations s)"
  shows "started_by c s'"
  using assms by (simp add: started_by_def list_all_iff)

lemma tick_keeps_sustained:
  assumes inv: "piano_inv s" and d: "map_of (notes_data s) k = Some d"
    and sus: "highlighted d" "tasks_of s k = []"
    and clock: "started_by c s" "c \<le> now"
  shows "\<exists>s' d'. update_decay_animations now s = Inr s' \<and> piano_inv s' \<and>
           static_part s' = static_part s \<and> enable_animation s' = enable_animation s \<and>
           map_of (notes_data s') k = Some d' \<and> highlighted d' \<and> tasks_of s' k = [] \<and>
           started_by c s'"
proof -
  from tick_char [OF inv started_by_mono [OF clock]] obtain s' where
    s': "update_decay_animations now s = Inr s'" "piano_inv s'" "static_part s' = static_part s"
      "enable_animation s' = enable_animation s"
      "active_decay_animations s' = filter (\<lambda>t. progress now t < 1) (active_decay_animations s)"
      "\<And>k. map_of (notes_data s') k =
        (case find (\<lambda>t. note_key t = k) (active_decay_animations s) of
           None \<Rightarrow> (if background s = None
                    then map_option (rb_note (enable_animation s)) (map_of (notes_data s) k)
                    else map_of (notes_data s) k)
         | Some t \<Rightarrow> map_option (tick_note now t) (map_of (notes_data s) k))"
    by blast
  have t: "tasks_of s' k = []"
    using sus(2) by (simp add: tasks_of_def s'(5) filter_empty_conv)
  have c': "started_by c s'" by (rule filter_started_by [OF clock(1) s'(5)])
  have "\<exists>d'. map_of (notes_data s') k = Some d' \<and> highlighted d'"
    using s'(6) [of k] find_no_task [OF sus(2)] d sus(1) by simp
  with s'(1-4) t c' show ?thesis by blast
qed

lemma ticks_keep_sustained:
  assumes "piano_inv s" "map_of (notes_data s) k = Some d" "highlighted d" "tasks_of s k = []"
    "started_by c s" "list_all (\<lambda>now. c \<le> now) ticks"
  shows "\<exists>s' d'. run (map Tick ticks) s = Inr s' \<and> piano_inv s' \<and>
           static_part s' = static_part s \<and> enable_animation s' = enable_animation s \<and>
           map_of (notes_data s') k = Some d' \<and> highlighted d' \<and> tasks_of s' k = []"
  using assms
proof (induction ticks arbitrary: s d)
  case Nil
  then show ?case by simp
next
  case (Cons now ticks)
  from Cons.prems(6) have le: "c \<le> now" and rest: "list_all (\<lambda>now. c \<le> now) ticks"
    by simp_all
  from tick_keeps_sustained [OF Cons.prems(1-5) le] obtain s1 d1 where
    s1: "update_decay_animations now s = Inr s1" "piano_inv s1"
      "static_part s1 = static_part s" "enable_animation s1 = enable_animation s"
      "map_of (notes_data s1) k = Some d1" "highlighted d1" "tasks_of s1 k = []"
      "started_by c s1"
    by blast
  from Cons.IH [OF s1(2,5,6,7,8) rest] obtain s' d' where
    "run (map Tick ticks) s1 = Inr s'" "piano_inv s'"
      "static_part s' = static_part s1" "enable_animation s' = enable_animation s1"
      "map_of (notes_data s') k = Some d'" "highlighted d'" "tasks_of s' k = []"
    by blast
  with s1 show ?case by simp
qed

lemma tick_keeps_strikable:
  assumes inv: "piano_inv s" and d: "map_of (notes_data s) k = Some d"
    and str: "tasks_of s k \<noteq> [] \<or> \<not> highlighted d"
    and clock: "started_by c s" "c \<le> now"
  shows "\<exists>s' d'. update_decay_animations now s = Inr s' \<and> piano_inv s' \<and>
           static_part s' = static_part s \<and> enable_animation s' = enable_animation s \<and>
           map_of (notes_data s') k = Some d' \<and> (tasks_of s' k \<noteq> [] \<or> \<not> highlighted d') \<and>
           started_by c s'"
proof -
  from tick_char [OF inv started_by_mono [OF clock]] obtain s' where
    s': "update_decay_animations now s = Inr s'" "piano_inv s'" "static_part s' = static_part s"
      "enable_animation s' = enable_animation s"
      "active_decay_animations s' = filter (\<lambda>t. progress now t < 1) (active_decay_animations s)"
      "\<And>k. map_of (notes_data s') k =
        (case find (\<lambda>t. note_key t = k) (active_decay_animations s) of
           None \<Rightarrow> (if background s = None
                    then map_option (rb_note (enable_animation s)) (map_of (notes_data s) k)
                    else map_of (notes_data s) k)
         | Some t \<Rightarrow> map_option (tick_note now t) (map_of (notes_data s) k))"
    by blast
  have "\<exists>d'. map_of (notes_data s') k = Some d' \<and> (tasks_of s' k \<noteq> [] \<or> \<not> highlighted d')"
  proof (cases "tasks_of s k = []")
    case True
    with str have "\<not> highlighted d" by simp
    then show ?thesis using s'(6) [of k] find_no_task [OF True] d by simp
  next
    case False
    from find_task_of [OF False] obtain t where
      t: "find (\<lambda>t. note_key t = k) (active_decay_animations s) = Some t" "note_key t = k" by blast
    then have tin: "t \<in> set (active_decay_animations s)" by (auto simp: find_Some_iff)
    have e: "map_of (notes_data s') k = Some (tick_note now t d)"
      using s'(6) [of k] t(1) d by simp
    show ?thesis
    proof (cases "progress now t < 1")
      case True
      with tin t(2) have "t \<in> set (tasks_of s' k)" by (simp add: tasks_of_def s'(5))
      then have "tasks_of s' k \<noteq> []" by auto
      with e show ?thesis by simp
    next
      case False
      then have "\<not> highlighted (tick_note now t d)" by (simp add: tick_note_def)
      with e show ?thesis by simp
    qed
  qed
  moreover have "started_by c s'" by (rule filter_started_by [OF clock(1) s'(5)])
  ultimately show ?thesis using s'(1-4) by blast
qed

lemma ticks_keep_strikable:
  assumes "piano_inv s" "map_of (notes_data s) k = Some d" "tasks_of s k \<noteq> [] \<or> \<not> highlighted d"
    "started_by c s" "list_all (\<lambda>now. c \<le> now) ticks"
  shows "\<exists>s' d'. run (map Tick ticks) s = Inr s' \<and> piano_inv s' \<and>
           static_part s' = static_part s \<and> enable_animation s' = enable_animation s \<and>
           map_of (notes_data s') k = Some d' \<and> (tasks_of s' k \<noteq> [] \<or> \<not> highlighted d')"
  using assms
proof (induction ticks arbitrary: s d)
  case Nil
  then show ?case by simp
next
  case (Cons now ticks)
  from Cons.prems(5) have le: "c \<le> now" and rest: "list_all (\<lambda>now. c \<le> now) ticks"
    by simp_all
  from tick_keeps_strikable [OF Cons.prems(1-4) le] obtain s1 d1 where
    s1: "update_decay_animations now s = Inr s1" "piano_inv s1"
      "static_part s1 = static_part s" "enable_animation s1 = enable_animation s"
      "map_of (notes_data s1) k = Some d1" "tasks_of s1 k \<noteq> [] \<or> \<not> highlighted d1"
      "started_by c s1"
    by blast
  from Cons.IH [OF s1(2,5,6,7) rest] obtain s' d' where
    "run (map Tick ticks) s1 = Inr s'" "piano_inv s'"
      "static_part s' = static_part s1" "enable_animation s' = enable_animation s1"
      "map_of (notes_data s') k = Some d'" "tasks_of s' k \<noteq> [] \<or> \<not> highlighted d'"
    by blast
  with s1 show ?case by simp
qed

lemma run_append:
  "run xs s = Inr s1 \<Longrightarrow> run (xs @ ys) s = run ys s1"
  by (induction xs arbitrary: s) (auto split: sum.splits)

lemma note_of_idle: "\<not> highlighted (note_of k)" "alpha (line (note_of k)) = 0"
  by (simp_all add: note_of_def new_note_def)

subsection \<open>Ticks and scenarios\<close>

lemma find_distinct_key:
  "distinct (map f xs) \<Longrightarrow> t \<in> set xs \<Longrightarrow> find (\<lambda>u. f u = f t) xs = Some t"
proof (induction xs)
  case Nil
  then show ?case by simp
next
  case (Cons x xs)
  show ?case
  proof (cases "x = t")
    case True
    then show ?thesis by simp
  next
    case False
    with Cons.prems have tin: "t \<in> set xs" by simp
    from Cons.prems(1) have "f x \<notin> f ` set xs" by simp
    with tin have "f x \<noteq> f t" by blast
    with Cons.IH [OF _ tin] Cons.prems(1) show ?thesis by simp
  qed
qed

lemma progress_clamp:
  assumes "0 < duration t" "start_time t \<le> now"
  shows "progress now t = max 0 (min 1 ((now - start_time t) / duration t))"
    and "(progress now t < 1) = (now - start_time t < duration t)"
proof -
  have "0 \<le> (now - start_time t) / duration t" using assms by simp
  then show "progress now t = max 0 (min 1 ((now - start_time t) / duration t))"
    by (simp add: progress_def)
  have "((now - start_time t) / duration t < 1) = (now - start_time t < duration t)"
    using assms(1) by (simp add: divide_less_eq)
  then show "(progress now t < 1) = (now - start_time t < duration t)"
    by (simp add: progress_def min_less_iff_disj)
qed

lemma base_r_c3: "base_r (note_of (2, 0)) \<noteq> []" "hd (base_r (note_of (2, 0))) = 4"
proof -
  have th: "segment_theta 2 0 \<noteq> []" "hd (segment_theta 2 0) = 4 * pi"
    by (simp_all add: segment_theta_def num_points_in_segment_def linspace_def hd_map upt_conv_Cons
        total_start_theta_def)
  show "base_r (note_of (2, 0)) \<noteq> []"
    using th(1) by (simp add: note_of_def new_note_def segment_r_def)
  have "hd (base_r (note_of (2, 0))) = exp (b_const * hd (segment_theta 2 0))"
    using th(1) by (simp add: note_of_def new_note_def segment_r_def hd_map)
  then show "hd (base_r (note_of (2, 0))) = 4" by (simp add: th(2) radius_c3)
qed

lemma click_then_tick:
  assumes "n \<le> 9" "k \<in> set (note_keys n)" and le: "t0 \<le> now"
  shows "\<exists>s1 s2. on_click (click_on k) t0 (initial_state n True) = Inr s1 \<and> piano_inv s1 \<and>
     active_decay_animations s1 = [new_task k t0] \<and>
     active_notes_list s1 = [name (note_of k)] \<and>
     map_of (notes_data s1) k =
       Some ((note_of k)\<lparr>line := (line (note_of k))\<lparr>ydata := base_r (note_of k), alpha := 1, visible := True\<rparr>,
               highlighted := True\<rparr>) \<and>
     update_decay_animations now s1 = Inr s2 \<and>
     active_notes_list s2 = [name (note_of k)] \<and>
     display_text [name (note_of k)] = Inr (status_text s2) \<and>
     active_decay_animations s2 = filter (\<lambda>t. progress now t < 1) [new_task k t0] \<and>
     map_of (notes_data s2) k =
       Some (tick_note now (new_task k t0)
         ((note_of k)\<lparr>line := (line (note_of k))\<lparr>ydata := base_r (note_of k), alpha := 1, visible := True\<rparr>,
               highlighted := True\<rparr>))"
proof -
  from first_click [OF assms(1,2), of t0 True] obtain s1 where
    s1: "on_click (click_on k) t0 (initial_state n True) = Inr s1" "piano_inv s1"
      "map_of (notes_data s1) k =
       Some ((note_of k)\<lparr>line := (line (note_of k))\<lparr>ydata := base_r (note_of k), alpha := 1, visible := True\<rparr>,
               highlighted := True\<rparr>)"
      "active_notes_list s1 = [name (note_of k)]"
      "active_decay_animations s1 = [new_task k t0]"
    by auto
  have "started_by now s1" using le by (simp add: started_by_def s1(5) new_task_def)
  from tick_char [OF s1(2) this] obtain s2 where
    s2: "update_decay_animations now s1 = Inr s2"
      "active_notes_list s2 = active_notes_list s1"
      "display_text (active_notes_list s1) = Inr (status_text s2)"
      "active_decay_animations s2 = filter (\<lambda>t. progress now t < 1) (active_decay_animations s1)"
      "\<And>k. map_of (notes_data s2) k =
        (case find (\<lambda>t. note_key t = k) (active_decay_animations s1) of
           None \<Rightarrow> (if background s1 = None
                    then map_option (rb_note (enable_animation s1)) (map_of (notes_data s1) k)
                    else map_of (notes_data s1) k)
         | Some t \<Rightarrow> map_option (tick_note now t) (map_of (notes_data s1) k))"
    by blast
  have e: "map_of (notes_data s2) k =
       Some (tick_note now (new_task k t0)
         ((note_of k)\<lparr>line := (line (note_of k))\<lparr>ydata := base_r (note_of k), alpha := 1, visible := True\<rparr>,
               highlighted := True\<rparr>))"
    using s2(5) [of k] by (simp add: s1(5) s1(3) new_task_def)
  show ?thesis
    apply (rule exI [of _ s1])
    apply (rule exI [of _ s2])
    using s1 s2(1) s2(2) s2(3) s2(4) e by simp
qed

lemma progress_done: "progress 1 (new_task k 0) = 1"
  by (simp add: progress_def new_task_def)

lemma display_c3: "display_text [''C3''] = Inr ''Active Notes: C3''"
  by (simp add: display_text_def sorted_notes_def key_c3)

lemma distinct_key_filter_length:
  "distinct (map f xs) \<Longrightarrow> length (filter (\<lambda>x. f x = k) xs) \<le> 1"
proof (induction xs)
  case Nil
  then show ?case by simp
next
  case (Cons x xs)
  show ?case
  proof (cases "f x = k")
    case True
    from Cons.prems have "f x \<notin> f ` set xs" by simp
    with True have "\<forall>y \<in> set xs. f y \<noteq> k" by blast
    then have "filter (\<lambda>x. f x = k) xs = []" by (simp add: filter_empty_conv)
    with True show ?thesis by simp
  next
    case False
    with Cons show ?thesis by simp
  qed
qed

lemma click_other_key:
  assumes inv: "piano_inv s" and k: "k \<in> set (map fst (notes_data s))"
    and d: "map_of (notes_data s) k = Some d" and idle: "\<not> highlighted d"
    and fresh: "name d \<notin> set (active_notes_list s)" and off: "\<not> enable_animation s"
  shows "\<exists>s'. on_click (click_on k) now s = Inr s' \<and> piano_inv s' \<and>
     \<not> enable_animation s' \<and>
     (\<forall>k'. k' \<noteq> k \<longrightarrow> map_of (notes_data s') k' = map_of (notes_data s) k') \<and>
     map_of (notes_data s') k =
       Some (d\<lparr>line := (line d)\<lparr>ydata := base_r d, alpha := 1, visible := True\<rparr>,
               highlighted := True\<rparr>) \<and>
     active_notes_list s' = active_notes_list s @ [name d] \<and>
     display_text (active_notes_list s') = Inr (status_text s') \<and>
     active_decay_animations s' = filter (\<lambda>t. note_key t \<noteq> k) (active_decay_animations s)"
proof -
  have r: "resolve (click_on k) s = Some k" by (rule resolve_click_on [OF k])
  from idle have press: "tasks_of s k \<noteq> [] \<or> \<not> highlighted d" by simp
  from on_click_press [OF inv r d press, of now] obtain s' where
    s': "on_click (click_on k) now s = Inr s'" "enable_animation s' = enable_animation s"
      "display_text (active_notes_list s') = Inr (status_text s')"
      "\<forall>k'. k' \<noteq> k \<longrightarrow> map_of (notes_data s') k' = map_of (notes_data s) k'"
      "map_of (notes_data s') k =
       Some (d\<lparr>line := (line d)\<lparr>ydata := base_r d, alpha := 1, visible := True\<rparr>,
               highlighted := True\<rparr>)"
      "active_notes_list s' =
       (if name d \<in> set (active_notes_list s) then active_notes_list s
        else active_notes_list s @ [name d])"
      "active_decay_animations s' =
       filter (\<lambda>t. note_key t \<noteq> k) (active_decay_animations s) @
       (if enable_animation s then [new_task k now] else [])"
    by blast
  from on_click_inv [OF inv, of "click_on k" now] s'(1) have inv': "piano_inv s'" by auto
  show ?thesis
    apply (rule exI [of _ s'])
    using s' inv' fresh off by simp
qed

lemma note_of_cs3: "name (note_of (2, 1)) = ''C#3''"
  by (simp add: note_of_def new_note_def semitone_names_def str_nat.simps [of 3])


section \<open>A click changes one key\<close>

text \<open>
  C10.  In every state that satisfies the invariant a click returns without an exception.
  When no line contains the pointer (or the click is outside the axes) the state is
  unchanged.  When the click is resolved to the key \<open>k\<close>, the first key in dictionary
  order whose line contains the pointer, the dictionary entry (highlighted flag, line
  alpha, visibility and data) and the tasks of every other key are unchanged.
\<close>

theorem click_changes_one_key:
  assumes "piano_inv s"
  shows "\<exists>s'. on_click ev now s = Inr s' \<and>
           (case resolve ev s of
              None \<Rightarrow> s' = s
            | Some k \<Rightarrow>
                map fst (notes_data s') = map fst (notes_data s) \<and>
                (\<forall>k'. k' \<noteq> k \<longrightarrow>
                   map_of (notes_data s') k' = map_of (notes_data s) k' \<and>
                   tasks_of s' k' = tasks_of s k'))"
proof (cases "resolve ev s")
  case None
  then show ?thesis by (simp add: on_click_miss)
next
  case (Some k)
  note p = piano_inv_parts [OF assms]
  from resolve_in_keys [OF Some p(1)] obtain d where d: "map_of (notes_data s) k = Some d" by blast
  show ?thesis
  proof (cases "tasks_of s k \<noteq> [] \<or> \<not> highlighted d")
    case True
    from on_click_press [OF assms Some d True, of now] obtain s' where
      s': "on_click ev now s = Inr s'" "static_part s' = static_part s"
        "\<forall>k'. k' \<noteq> k \<longrightarrow> map_of (notes_data s') k' = map_of (notes_data s) k'"
        "active_decay_animations s' =
           filter (\<lambda>t. note_key t \<noteq> k) (active_decay_animations s) @
           (if enable_animation s then [new_task k now] else [])"
      by blast
    have "\<forall>k'. k' \<noteq> k \<longrightarrow> tasks_of s' k' = tasks_of s k'"
    proof (intro allI impI)
      fix k' :: note_key assume "k' \<noteq> k"
      then show "tasks_of s' k' = tasks_of s k'"
        unfolding tasks_of_def s'(4) by (rule tasks_of_other)
    qed
    with s'(1,3) keys_of_static [OF s'(2)] Some show ?thesis by simp
  next
    case False
    then have rel: "tasks_of s k = []" "highlighted d" by auto
    from on_click_release [OF assms Some d rel, of now] obtain s' where
      s': "on_click ev now s = Inr s'" "static_part s' = static_part s"
        "\<forall>k'. k' \<noteq> k \<longrightarrow> map_of (notes_data s') k' = map_of (notes_data s) k'"
        "active_decay_animations s' = active_decay_animations s"
      by blast
    have "\<forall>k'. k' \<noteq> k \<longrightarrow> tasks_of s' k' = tasks_of s k'"
      by (simp add: tasks_of_def s'(4))
    with s'(1,3) keys_of_static [OF s'(2)] Some show ?thesis by simp
  qed
qed

text \<open>The theorem at the freshly built five-rotation piano, for a click on C3: the
  entry of C1 is the one \<open>_draw_notes_segments\<close> stored.\<close>

theorem click_changes_one_key_c3:
  "piano_inv (initial_state 5 True) \<and>
   resolve (click_on (2, 0)) (initial_state 5 True) = Some (2, 0) \<and>
   (\<exists>s'. on_click (click_on (2, 0)) 0 (initial_state 5 True) = Inr s' \<and>
         map_of (notes_data s') (0, 0) = Some (note_of (0, 0)) \<and> tasks_of s' (0, 0) = [])"
proof -
  have inv: "piano_inv (initial_state 5 True)" by (rule initial_state_inv) simp
  have r: "resolve (click_on (2, 0)) (initial_state 5 True) = Some (2, 0)"
    by (rule resolve_click_on) (simp add: initial_keys c3_key)
  from click_changes_one_key [OF inv, of "click_on (2, 0)" 0] r obtain s' where
    s': "on_click (click_on (2, 0)) 0 (initial_state 5 True) = Inr s'"
     "\<forall>k'. k' \<noteq> (2, 0) \<longrightarrow>
        map_of (notes_data s') k' = map_of (notes_data (initial_state 5 True)) k' \<and>
        tasks_of s' k' = tasks_of (initial_state 5 True) k'"
    by auto
  from spec [OF s'(2), of "(0, 0)"]
  have "map_of (notes_data s') (0, 0) = Some (note_of (0, 0))" "tasks_of s' (0, 0) = []"
    by (simp_all add: initial_notes tasks_of_def initial_fields)
  with inv r s'(1) show ?thesis by blast
qed

section \<open>Clicking a key that is fading\<close>

text \<open>
  C7 (as amended).  Clicking a key that has a task in the queue returns without an
  exception, removes that task, and leaves the key highlighted with alpha 1, visible and
  with its unscaled radii.  When auto-decay is enabled at the click the key then has
  exactly one task, which starts at the click time; when auto-decay has been switched off
  the key has no task.
\<close>

theorem restrike_decaying_key:
  assumes "piano_inv s" and "resolve ev s = Some k" and "tasks_of s k \<noteq> []"
  shows "\<exists>s' d'. on_click ev now s = Inr s' \<and>
           map_of (notes_data s') k = Some d' \<and>
           highlighted d' \<and> alpha (line d') = 1 \<and> visible (line d') \<and>
           ydata (line d') = base_r d' \<and>
           tasks_of s' k =
             (if enable_animation s
              then [\<lparr>note_key = k, start_time = now, duration = 1 / 2,
                     decay_end_factor = 1 / 2, line_obj = k\<rparr>]
              else [])"
proof -
  note p = piano_inv_parts [OF assms(1)]
  from resolve_in_keys [OF assms(2) p(1)] obtain d where d: "map_of (notes_data s) k = Some d" by blast
  from assms(3) have press: "tasks_of s k \<noteq> [] \<or> \<not> highlighted d" by simp
  from on_click_press [OF assms(1,2) d press, of now] obtain s' where
    s': "on_click ev now s = Inr s'"
      "map_of (notes_data s') k =
         Some (d\<lparr>line := (line d)\<lparr>ydata := base_r d, alpha := 1, visible := True\<rparr>,
                 highlighted := True\<rparr>)"
      "active_decay_animations s' =
         filter (\<lambda>t. note_key t \<noteq> k) (active_decay_animations s) @
         (if enable_animation s then [new_task k now] else [])"
    by blast
  have "tasks_of s' k = (if enable_animation s then [new_task k now] else [])"
    unfolding tasks_of_def s'(3) by (rule tasks_of_after_press)
  then have t: "tasks_of s' k =
             (if enable_animation s
              then [\<lparr>note_key = k, start_time = now, duration = 1 / 2,
                     decay_end_factor = 1 / 2, line_obj = k\<rparr>]
              else [])"
    by (simp add: new_task_def)
  show ?thesis
    apply (rule exI [of _ s'])
    apply (rule exI [of _ "d\<lparr>line := (line d)\<lparr>ydata := base_r d, alpha := 1, visible := True\<rparr>,
                 highlighted := True\<rparr>"])
    using s'(1,2) t by simp
qed

text \<open>
  Without the condition on auto-decay the statement fails once auto-decay has been
  switched off during a fade: the
  piano starts with auto-decay on, C3 is clicked at time 0 (a task is queued), the key
  \<open>a\<close> is pressed at 0.1 (auto-decay off, the task stays in the queue), and C3 is clicked
  again at 0.2: the old task is removed and no new one is queued.
\<close>

theorem restrike_schedules_no_task:
  "init_piano 5 True = Inr (initial_state 5 True) \<and>
   (\<exists>s1 s2. run [Click (click_on (2, 0)) 0, KeyPress ''a'' (1 / 10)] (initial_state 5 True) = Inr s1 \<and>
            tasks_of s1 (2, 0) =
              [\<lparr>note_key = (2, 0), start_time = 0, duration = 1 / 2,
                decay_end_factor = 1 / 2, line_obj = (2, 0)\<rparr>] \<and>
            on_click (click_on (2, 0)) (1 / 5) s1 = Inr s2 \<and>
            active_decay_animations s2 = [])"
proof -
  have k: "(2, 0) \<in> set (note_keys 5)" by (rule c3_key)
  from first_click [OF _ k, of 0 True] obtain s0 where
    s0: "on_click (click_on (2, 0)) 0 (initial_state 5 True) = Inr s0" "piano_inv s0"
      "static_part s0 = static_part (initial_state 5 True)" "enable_animation s0 = True"
      "active_decay_animations s0 = [new_task (2, 0) 0]"
    by auto
  define s1 where "s1 = (recreate_background s0)\<lparr>enable_animation := False\<rparr>"
  have ka: "on_key_press ''a'' (1 / 10) s0 = Inr s1"
    unfolding s1_def using s0(4) by (simp add: key_a_switches_off)
  have run1: "run [Click (click_on (2, 0)) 0, KeyPress ''a'' (1 / 10)] (initial_state 5 True) = Inr s1"
    by (simp add: s0(1) ka)
  have inv1: "piano_inv s1"
    by (rule piano_inv_same_lists [OF s0(2)]) (simp_all add: s1_def)
  have st1: "static_part s1 = static_part (initial_state 5 True)" by (simp add: s1_def s0(3))
  have t1: "active_decay_animations s1 = [new_task (2, 0) 0]" by (simp add: s1_def s0(5))
  have e1: "\<not> enable_animation s1" by (simp add: s1_def)
  have to1: "tasks_of s1 (2, 0) =
              [\<lparr>note_key = (2, 0), start_time = 0, duration = 1 / 2,
                decay_end_factor = 1 / 2, line_obj = (2, 0)\<rparr>]"
    by (simp add: tasks_of_def t1 new_task_def)
  have r1: "resolve (click_on (2, 0)) s1 = Some (2, 0)"
    by (rule resolve_click_on) (simp add: keys_of_static [OF st1] initial_keys k)
  from resolve_in_keys [OF r1 piano_inv_parts(1) [OF inv1]] obtain d where
    d: "map_of (notes_data s1) (2, 0) = Some d" by blast
  have press: "tasks_of s1 (2, 0) \<noteq> [] \<or> \<not> highlighted d" by (simp add: to1)
  from on_click_press [OF inv1 r1 d press, of "1 / 5"] obtain s2 where
    s2: "on_click (click_on (2, 0)) (1 / 5) s1 = Inr s2"
      "active_decay_animations s2 =
         filter (\<lambda>t. note_key t \<noteq> (2, 0)) (active_decay_animations s1) @
         (if enable_animation s1 then [new_task (2, 0) (1 / 5)] else [])"
    by blast
  have "active_decay_animations s2 = []" using s2(2) e1 by (simp add: t1 new_task_def)
  with run1 to1 s2(1) init_piano_eq show ?thesis by blast
qed

text \<open>The amended statement at the piano with auto-decay on, after one click on C3: the
  second click at 0.25 leaves exactly the task that starts at 0.25.\<close>

theorem restrike_decaying_key_c3:
  "\<exists>s1. on_click (click_on (2, 0)) 0 (initial_state 5 True) = Inr s1 \<and>
     piano_inv s1 \<and> resolve (click_on (2, 0)) s1 = Some (2, 0) \<and> tasks_of s1 (2, 0) \<noteq> [] \<and>
     enable_animation s1 \<and>
     (\<exists>s2 d'. on_click (click_on (2, 0)) (1 / 4) s1 = Inr s2 \<and>
        map_of (notes_data s2) (2, 0) = Some d' \<and> highlighted d' \<and> alpha (line d') = 1 \<and>
        ydata (line d') = base_r d' \<and>
        tasks_of s2 (2, 0) =
          [\<lparr>note_key = (2, 0), start_time = 1 / 4, duration = 1 / 2,
            decay_end_factor = 1 / 2, line_obj = (2, 0)\<rparr>])"
proof -
  have k: "(2, 0) \<in> set (note_keys 5)" by (rule c3_key)
  from first_click [OF _ k, of 0 True] obtain s1 where
    s1: "on_click (click_on (2, 0)) 0 (initial_state 5 True) = Inr s1" "piano_inv s1"
      "static_part s1 = static_part (initial_state 5 True)" "enable_animation s1 = True"
      "active_decay_animations s1 = [new_task (2, 0) 0]"
    by auto
  have r1: "resolve (click_on (2, 0)) s1 = Some (2, 0)"
    by (rule resolve_click_on) (simp add: keys_of_static [OF s1(3)] initial_keys k)
  have to1: "tasks_of s1 (2, 0) \<noteq> []" by (simp add: tasks_of_def s1(5) new_task_def)
  from restrike_decaying_key [OF s1(2) r1 to1, of "1 / 4"] s1(4)
  obtain s2 d' where
    "on_click (click_on (2, 0)) (1 / 4) s1 = Inr s2"
    "map_of (notes_data s2) (2, 0) = Some d'" "highlighted d'" "alpha (line d') = 1"
    "ydata (line d') = base_r d'"
    "tasks_of s2 (2, 0) =
          [\<lparr>note_key = (2, 0), start_time = 1 / 4, duration = 1 / 2,
            decay_end_factor = 1 / 2, line_obj = (2, 0)\<rparr>]"
    by auto
  with s1(1,2,4) r1 to1 show ?thesis by blast
qed

section \<open>Clicking an idle key twice\<close>

text \<open>
  C3 (as amended).  Let \<open>k\<close> be idle (not highlighted, no task) and let two clicks be
  resolved to \<open>k\<close>, the first at time \<open>t1\<close>, with any number of frame ticks between them.
  Suppose the clock does not go back behind a task's start: no task in the queue starts
  after \<open>t1\<close> and no tick reads a clock before \<open>t1\<close>.  Then the run returns without
  an exception.  With auto-decay disabled \<open>k\<close> ends idle again: not highlighted, alpha 0,
  hidden, no task.  With auto-decay enabled the second click strikes the key again: \<open>k\<close>
  ends highlighted with alpha 1 and exactly one task, which starts at the second click.
\<close>

theorem double_click:
  assumes "piano_inv s"
    and "resolve ev1 s = Some k" and "resolve ev2 s = Some k"
    and "map_of (notes_data s) k = Some d" and "\<not> highlighted d" and "tasks_of s k = []"
    and "started_by t1 s" and "list_all (\<lambda>now. t1 \<le> now) ticks"
  shows "\<exists>s' d'. run (Click ev1 t1 # map Tick ticks @ [Click ev2 t2]) s = Inr s' \<and>
           map_of (notes_data s') k = Some d' \<and>
           (if enable_animation s
            then highlighted d' \<and> alpha (line d') = 1 \<and> visible (line d') \<and>
                 tasks_of s' k =
                   [\<lparr>note_key = k, start_time = t2, duration = 1 / 2,
                     decay_end_factor = 1 / 2, line_obj = k\<rparr>]
            else \<not> highlighted d' \<and> alpha (line d') = 0 \<and> \<not> visible (line d') \<and>
                 tasks_of s' k = [])"
proof -
  from assms(5) have press: "tasks_of s k \<noteq> [] \<or> \<not> highlighted d" by simp
  from on_click_press [OF assms(1,2,4) press, of t1] obtain s1 where
    s1: "on_click ev1 t1 s = Inr s1" "static_part s1 = static_part s"
      "enable_animation s1 = enable_animation s"
      "map_of (notes_data s1) k =
         Some (d\<lparr>line := (line d)\<lparr>ydata := base_r d, alpha := 1, visible := True\<rparr>,
                 highlighted := True\<rparr>)"
      "active_decay_animations s1 =
         filter (\<lambda>t. note_key t \<noteq> k) (active_decay_animations s) @
         (if enable_animation s then [new_task k t1] else [])"
    by blast
  from on_click_inv [OF assms(1), of ev1 t1] s1(1) have inv1: "piano_inv s1" by auto
  have to1: "tasks_of s1 k = (if enable_animation s then [new_task k t1] else [])"
    unfolding tasks_of_def s1(5) by (rule tasks_of_after_press)
  have c1: "started_by t1 s1"
    using assms(7) by (auto simp: started_by_def s1(5) list_all_iff new_task_def)
  let ?d1 = "d\<lparr>line := (line d)\<lparr>ydata := base_r d, alpha := 1, visible := True\<rparr>,
                 highlighted := True\<rparr>"
  show ?thesis
  proof (cases "enable_animation s")
    case True
    have "tasks_of s1 k \<noteq> [] \<or> \<not> highlighted ?d1" using to1 True by simp
    from ticks_keep_strikable [OF inv1 s1(4) this c1 assms(8)] obtain s2 d2 where
      s2: "run (map Tick ticks) s1 = Inr s2" "piano_inv s2" "static_part s2 = static_part s1"
        "enable_animation s2 = enable_animation s1" "map_of (notes_data s2) k = Some d2"
        "tasks_of s2 k \<noteq> [] \<or> \<not> highlighted d2"
      by blast
    have r2: "resolve ev2 s2 = Some k"
      using resolve_static [of s2 s ev2] s2(3) s1(2) assms(3) by simp
    from on_click_press [OF s2(2) r2 s2(5,6), of t2] obtain s3 where
      s3: "on_click ev2 t2 s2 = Inr s3"
        "map_of (notes_data s3) k =
           Some (d2\<lparr>line := (line d2)\<lparr>ydata := base_r d2, alpha := 1, visible := True\<rparr>,
                   highlighted := True\<rparr>)"
        "active_decay_animations s3 =
           filter (\<lambda>t. note_key t \<noteq> k) (active_decay_animations s2) @
           (if enable_animation s2 then [new_task k t2] else [])"
      by blast
    have e2: "enable_animation s2" using True s2(4) s1(3) by simp
    have "tasks_of s3 k = (if enable_animation s2 then [new_task k t2] else [])"
      unfolding tasks_of_def s3(3) by (rule tasks_of_after_press)
    with e2 have to3: "tasks_of s3 k = [new_task k t2]" by simp
    have "run (Click ev1 t1 # map Tick ticks @ [Click ev2 t2]) s = Inr s3"
      using s1(1) run_append [OF s2(1), of "[Click ev2 t2]"] s3(1) by simp
    then show ?thesis using s3(2) to3 True by (simp add: new_task_def)
  next
    case False
    have "highlighted ?d1" "tasks_of s1 k = []" using to1 False by simp_all
    from ticks_keep_sustained [OF inv1 s1(4) this c1 assms(8)] obtain s2 d2 where
      s2: "run (map Tick ticks) s1 = Inr s2" "piano_inv s2" "static_part s2 = static_part s1"
        "enable_animation s2 = enable_animation s1" "map_of (notes_data s2) k = Some d2"
        "highlighted d2" "tasks_of s2 k = []"
      by blast
    have r2: "resolve ev2 s2 = Some k"
      using resolve_static [of s2 s ev2] s2(3) s1(2) assms(3) by simp
    from on_click_release [OF s2(2) r2 s2(5,7,6), of t2] obtain s3 where
      s3: "on_click ev2 t2 s2 = Inr s3"
        "map_of (notes_data s3) k =
           Some (d2\<lparr>line := (line d2)\<lparr>alpha := 0, visible := False\<rparr>, highlighted := False\<rparr>)"
        "active_decay_animations s3 = active_decay_animations s2"
      by blast
    have to3: "tasks_of s3 k = []" using s2(7) by (simp add: tasks_of_def s3(3))
    have "run (Click ev1 t1 # map Tick ticks @ [Click ev2 t2]) s = Inr s3"
      using s1(1) run_append [OF s2(1), of "[Click ev2 t2]"] s3(1) by simp
    then show ?thesis using s3(2) to3 False by simp
  qed
qed

text \<open>
  With auto-decay enabled a double click does not return the key to idle: on the fresh
  piano C3 is idle, and
  after a click at time 0 and a second click at 0.1 it is highlighted with alpha 1 and
  has a task.  And a tick between the two clicks that reads a clock before the first
  click raises \<open>ValueError\<close>: with the clicks at times 1 and 2 and a tick at time 0 the
  run does not reach the second click.
\<close>

theorem double_click_with_auto_decay:
  "init_piano 5 True = Inr (initial_state 5 True) \<and>
   map_of (notes_data (initial_state 5 True)) (2, 0) = Some (note_of (2, 0)) \<and>
   \<not> highlighted (note_of (2, 0)) \<and> alpha (line (note_of (2, 0))) = 0 \<and>
   tasks_of (initial_state 5 True) (2, 0) = [] \<and>
   (\<exists>s' d'. run [Click (click_on (2, 0)) 0, Click (click_on (2, 0)) (1 / 10)]
               (initial_state 5 True) = Inr s' \<and>
            map_of (notes_data s') (2, 0) = Some d' \<and>
            highlighted d' \<and> alpha (line d') = 1 \<and> tasks_of s' (2, 0) \<noteq> []) \<and>
   run [Click (click_on (2, 0)) 1, Tick 0, Click (click_on (2, 0)) 2]
     (initial_state 5 True) = Inl ValueError"
proof -
  have k: "(2, 0) \<in> set (note_keys 5)" by (rule c3_key)
  have d0: "map_of (notes_data (initial_state 5 True)) (2, 0) = Some (note_of (2, 0))"
    by (simp add: initial_notes)
  have t0: "tasks_of (initial_state 5 True) (2, 0) = []"
    by (simp add: tasks_of_def initial_fields)
  from first_click [OF _ k, of 0 True] obtain s1 where
    s1: "on_click (click_on (2, 0)) 0 (initial_state 5 True) = Inr s1" "piano_inv s1"
      "static_part s1 = static_part (initial_state 5 True)" "enable_animation s1 = True"
      "active_decay_animations s1 = [new_task (2, 0) 0]"
    by auto
  have r1: "resolve (click_on (2, 0)) s1 = Some (2, 0)"
    by (rule resolve_click_on) (simp add: keys_of_static [OF s1(3)] initial_keys k)
  from resolve_in_keys [OF r1 piano_inv_parts(1) [OF s1(2)]] obtain d where
    d: "map_of (notes_data s1) (2, 0) = Some d" by blast
  have press: "tasks_of s1 (2, 0) \<noteq> [] \<or> \<not> highlighted d"
    by (simp add: tasks_of_def s1(5) new_task_def)
  from on_click_press [OF s1(2) r1 d press, of "1 / 10"] obtain s2 where
    s2: "on_click (click_on (2, 0)) (1 / 10) s1 = Inr s2"
      "map_of (notes_data s2) (2, 0) =
         Some (d\<lparr>line := (line d)\<lparr>ydata := base_r d, alpha := 1, visible := True\<rparr>,
                 highlighted := True\<rparr>)"
      "active_decay_animations s2 =
         filter (\<lambda>t. note_key t \<noteq> (2, 0)) (active_decay_animations s1) @
         (if enable_animation s1 then [new_task (2, 0) (1 / 10)] else [])"
    by blast
  have "tasks_of s2 (2, 0) \<noteq> []"
    by (simp add: tasks_of_def s2(3) s1(4) new_task_def)
  moreover have "run [Click (click_on (2, 0)) 0, Click (click_on (2, 0)) (1 / 10)]
               (initial_state 5 True) = Inr s2"
    by (simp add: s1(1) s2(1))
  ultimately have twice: "\<exists>s' d'. run [Click (click_on (2, 0)) 0, Click (click_on (2, 0)) (1 / 10)]
               (initial_state 5 True) = Inr s' \<and>
            map_of (notes_data s') (2, 0) = Some d' \<and>
            highlighted d' \<and> alpha (line d') = 1 \<and> tasks_of s' (2, 0) \<noteq> []"
    using s2(2) by simp
  from first_click [OF _ k, of 1 True] obtain u1 where
    u1: "on_click (click_on (2, 0)) 1 (initial_state 5 True) = Inr u1" "piano_inv u1"
      "active_decay_animations u1 = [new_task (2, 0) 1]"
    by auto
  have "\<not> started_by 0 u1" by (simp add: started_by_def u1(3) new_task_def)
  from tick_raises [OF u1(2) this] have
    early: "run [Click (click_on (2, 0)) 1, Tick 0, Click (click_on (2, 0)) 2]
       (initial_state 5 True) = Inl ValueError"
    by (simp add: u1(1))
  from twice early show ?thesis
    using d0 t0 init_piano_eq note_of_idle by simp
qed

text \<open>The amended statement on the fresh piano with auto-decay disabled: two clicks on
  C3, at times 0 and 0.1, with a tick at 0.05 between them leave C3 idle.\<close>

theorem double_click_c3:
  "piano_inv (initial_state 5 False) \<and>
   resolve (click_on (2, 0)) (initial_state 5 False) = Some (2, 0) \<and>
   map_of (notes_data (initial_state 5 False)) (2, 0) = Some (note_of (2, 0)) \<and>
   \<not> highlighted (note_of (2, 0)) \<and> tasks_of (initial_state 5 False) (2, 0) = [] \<and>
   started_by 0 (initial_state 5 False) \<and> list_all (\<lambda>now. 0 \<le> now) [1 / 20 :: real] \<and>
   (\<exists>s' d'. run [Click (click_on (2, 0)) 0, Tick (1 / 20), Click (click_on (2, 0)) (1 / 10)]
               (initial_state 5 False) = Inr s' \<and>
            map_of (notes_data s') (2, 0) = Some d' \<and>
            \<not> highlighted d' \<and> alpha (line d') = 0 \<and> tasks_of s' (2, 0) = [])"
proof -
  have inv: "piano_inv (initial_state 5 False)" by (rule initial_state_inv) simp
  have r: "resolve (click_on (2, 0)) (initial_state 5 False) = Some (2, 0)"
    by (rule resolve_click_on) (simp add: initial_keys c3_key)
  have d0: "map_of (notes_data (initial_state 5 False)) (2, 0) = Some (note_of (2, 0))"
    by (simp add: initial_notes)
  have t0: "tasks_of (initial_state 5 False) (2, 0) = []"
    by (simp add: tasks_of_def initial_fields)
  have c0: "started_by 0 (initial_state 5 False)"
    by (simp add: started_by_def initial_fields)
  have ti: "list_all (\<lambda>now. 0 \<le> now) [1 / 20 :: real]" by simp
  from double_click [OF inv r r d0 note_of_idle(1) t0 c0 ti, of "1 / 10"]
  obtain s' d' where
    "run [Click (click_on (2, 0)) 0, Tick (1 / 20), Click (click_on (2, 0)) (1 / 10)]
               (initial_state 5 False) = Inr s'"
    "map_of (notes_data s') (2, 0) = Some d'"
    "\<not> highlighted d'" "alpha (line d') = 0" "tasks_of s' (2, 0) = []"
    by (auto simp: initial_fields)
  with inv r d0 t0 c0 ti note_of_idle(1) show ?thesis by blast
qed

section \<open>What a tick writes for a task\<close>

text \<open>
  C6 (as amended).  Let \<open>t\<close> be a task in the queue and \<open>now\<close> a clock reading not before
  the start of any task in the queue.  The tick returns without an exception, and with
  \<open>progress = clamp((now - start_time) / duration, 0, 1)\<close>: while \<open>now - start_time\<close> is
  below the duration, the line gets alpha \<open>1 - progress\<close> and the radii
  \<open>base_r \<cdot> (1 - progress \<cdot> (1 - decay_end_factor))\<close>, is visible, and the task stays in
  the queue; from \<open>now - start_time = duration\<close> on, progress is 1, the line gets alpha 0
  and is hidden, its radii are left as they were, the key is no longer highlighted and
  the task is removed.  Nothing in this depends on earlier ticks.
\<close>

theorem tick_samples_task:
  assumes "piano_inv s" and "t \<in> set (active_decay_animations s)"
    and "map_of (notes_data s) (note_key t) = Some d" and "started_by now s"
  shows "\<exists>s' d'. update_decay_animations now s = Inr s' \<and>
           map_of (notes_data s') (note_key t) = Some d' \<and>
           (let progress = max 0 (min 1 ((now - start_time t) / duration t)) in
            if now - start_time t < duration t
            then alpha (line d') = 1 - progress \<and>
                 ydata (line d') =
                   map (\<lambda>r. r * (1 - progress * (1 - decay_end_factor t))) (base_r d') \<and>
                 visible (line d') \<and> highlighted d' = highlighted d \<and>
                 t \<in> set (active_decay_animations s')
            else progress = 1 \<and> alpha (line d') = 0 \<and> \<not> visible (line d') \<and>
                 ydata (line d') = ydata (line d) \<and> \<not> highlighted d' \<and>
                 t \<notin> set (active_decay_animations s'))"
proof -
  note p = piano_inv_parts [OF assms(1)]
  from p(7) assms(2) have dur: "0 < duration t" by (simp add: list_all_iff)
  from assms(4,2) have st: "start_time t \<le> now" by (simp add: started_by_def list_all_iff)
  note pc = progress_clamp [OF dur st]
  have f: "find (\<lambda>u. note_key u = note_key t) (active_decay_animations s) = Some t"
    by (rule find_distinct_key [OF p(5) assms(2)])
  from tick_char [OF assms(1,4)] obtain s' where
    s': "update_decay_animations now s = Inr s'"
      "active_decay_animations s' = filter (\<lambda>t. progress now t < 1) (active_decay_animations s)"
      "\<And>k. map_of (notes_data s') k =
        (case find (\<lambda>t. note_key t = k) (active_decay_animations s) of
           None \<Rightarrow> (if background s = None
                    then map_option (rb_note (enable_animation s)) (map_of (notes_data s) k)
                    else map_of (notes_data s) k)
         | Some t \<Rightarrow> map_option (tick_note now t) (map_of (notes_data s) k))"
    by blast
  have e: "map_of (notes_data s') (note_key t) = Some (tick_note now t d)"
    using s'(3) [of "note_key t"] f assms(3) by simp
  have q: "(t \<in> set (active_decay_animations s')) = (now - start_time t < duration t)"
    using assms(2) by (simp add: s'(2) pc(2))
  have body: "(let progress = max 0 (min 1 ((now - start_time t) / duration t)) in
            if now - start_time t < duration t
            then alpha (line (tick_note now t d)) = 1 - progress \<and>
                 ydata (line (tick_note now t d)) =
                   map (\<lambda>r. r * (1 - progress * (1 - decay_end_factor t))) (base_r (tick_note now t d)) \<and>
                 visible (line (tick_note now t d)) \<and> highlighted (tick_note now t d) = highlighted d \<and>
                 t \<in> set (active_decay_animations s')
            else progress = 1 \<and> alpha (line (tick_note now t d)) = 0 \<and> \<not> visible (line (tick_note now t d)) \<and>
                 ydata (line (tick_note now t d)) = ydata (line d) \<and> \<not> highlighted (tick_note now t d) \<and>
                 t \<notin> set (active_decay_animations s'))"
  proof (cases "now - start_time t < duration t")
    case True
    then have "progress now t < 1" by (simp add: pc(2))
    then show ?thesis using True q pc(1) by (simp add: Let_def tick_note_def)
  next
    case False
    then have np: "\<not> progress now t < 1" by (simp add: pc(2))
    then have "progress now t = 1" by (simp add: progress_def)
    then show ?thesis using False q pc(1) np by (simp add: Let_def tick_note_def)
  qed
  show ?thesis
    apply (rule exI [of _ s'])
    apply (rule exI [of _ "tick_note now t d"])
    using s'(1) e body by simp
qed

text \<open>
  Two ticks on the fresh piano with auto-decay on that do not follow the clamped formula.
  The radii are not scaled at the tick that completes a fade: C3 is clicked at time 0 and
  the first tick comes at time 1.  The progress is 1, the task is removed and the line
  gets alpha 0, but its radii stay the unscaled \<open>base_r\<close> (first radius 4), not \<open>base_r\<close>
  times the end factor 1/2.  The progress is not clamped at 0: C3 is clicked at time 1 and
  a tick reads the clock 0.  The quotient is \<open>(0 - 1) / 0.5 = -2\<close>, the alpha passed to
  \<open>set_alpha\<close> is 3 and the tick raises \<open>ValueError\<close>; with a progress clamped to 0 the
  alpha would be 1.
\<close>

theorem tick_departs_from_clamp:
  "init_piano 5 True = Inr (initial_state 5 True) \<and>
   (\<exists>s1 s2 d2. on_click (click_on (2, 0)) 0 (initial_state 5 True) = Inr s1 \<and>
      active_decay_animations s1 =
        [\<lparr>note_key = (2, 0), start_time = 0, duration = 1 / 2,
          decay_end_factor = 1 / 2, line_obj = (2, 0)\<rparr>] \<and>
      update_decay_animations 1 s1 = Inr s2 \<and>
      active_decay_animations s2 = [] \<and>
      map_of (notes_data s2) (2, 0) = Some d2 \<and>
      alpha (line d2) = 0 \<and>
      ydata (line d2) = base_r d2 \<and> hd (ydata (line d2)) = 4 \<and>
      ydata (line d2) \<noteq> map (\<lambda>r. r * (1 - 1 * (1 - 1 / 2))) (base_r d2)) \<and>
   (\<exists>s1. on_click (click_on (2, 0)) 1 (initial_state 5 True) = Inr s1 \<and>
      active_decay_animations s1 =
        [\<lparr>note_key = (2, 0), start_time = 1, duration = 1 / 2,
          decay_end_factor = 1 / 2, line_obj = (2, 0)\<rparr>] \<and>
      max 0 (min 1 ((0 - 1) / (1 / 2 :: real))) = 0 \<and>
      update_decay_animations 0 s1 = Inl ValueError)"
proof -
  have k: "(2, 0) \<in> set (note_keys 5)" by (rule c3_key)
  let ?d1 = "(note_of (2, 0))\<lparr>line := (line (note_of (2, 0)))\<lparr>ydata := base_r (note_of (2, 0)), alpha := 1, visible := True\<rparr>,
               highlighted := True\<rparr>"
  from click_then_tick [OF _ k, of 0 1] obtain s1 s2 where
    s: "on_click (click_on (2, 0)) 0 (initial_state 5 True) = Inr s1"
      "active_decay_animations s1 = [new_task (2, 0) 0]"
      "update_decay_animations 1 s1 = Inr s2"
      "active_decay_animations s2 = filter (\<lambda>t. progress 1 t < 1) [new_task (2, 0) 0]"
      "map_of (notes_data s2) (2, 0) = Some (tick_note 1 (new_task (2, 0) 0) ?d1)"
    by auto
  let ?d2 = "tick_note 1 (new_task (2, 0) 0) ?d1"
  have y: "ydata (line ?d2) = base_r ?d2" "alpha (line ?d2) = 0" "base_r ?d2 = base_r (note_of (2, 0))"
    by (simp_all add: tick_note_def progress_done)
  have h: "hd (ydata (line ?d2)) = 4" by (simp only: y(1) y(3) base_r_c3(2))
  have h2: "hd (map (\<lambda>r. r * (1 - 1 * (1 - 1 / 2))) (base_r ?d2)) = 2"
    using base_r_c3 by (simp add: y(3) hd_map)
  have ne: "ydata (line ?d2) \<noteq> map (\<lambda>r. r * (1 - 1 * (1 - 1 / 2))) (base_r ?d2)"
  proof
    assume "ydata (line ?d2) = map (\<lambda>r. r * (1 - 1 * (1 - 1 / 2))) (base_r ?d2)"
    then have "hd (ydata (line ?d2)) = hd (map (\<lambda>r. r * (1 - 1 * (1 - 1 / 2))) (base_r ?d2))"
      by (rule arg_cong)
    then have "(4::real) = 2" by (simp only: h h2)
    then show False by simp
  qed
  have q2: "active_decay_animations s2 = []" by (simp add: s(4) progress_done)
  have q1: "active_decay_animations s1 =
        [\<lparr>note_key = (2, 0), start_time = 0, duration = 1 / 2,
          decay_end_factor = 1 / 2, line_obj = (2, 0)\<rparr>]"
    by (simp add: s(2) new_task_def)
  have early: "\<exists>s1. on_click (click_on (2, 0)) 1 (initial_state 5 True) = Inr s1 \<and>
      active_decay_animations s1 =
        [\<lparr>note_key = (2, 0), start_time = 1, duration = 1 / 2,
          decay_end_factor = 1 / 2, line_obj = (2, 0)\<rparr>] \<and>
      max 0 (min 1 ((0 - 1) / (1 / 2 :: real))) = 0 \<and>
      update_decay_animations 0 s1 = Inl ValueError"
  proof -
    from first_click [OF _ k, of 1 True] obtain s1 where
      s1: "on_click (click_on (2, 0)) 1 (initial_state 5 True) = Inr s1" "piano_inv s1"
        "active_decay_animations s1 = [new_task (2, 0) 1]"
      by auto
    have "\<not> started_by 0 s1" by (simp add: started_by_def s1(3) new_task_def)
    from tick_raises [OF s1(2) this] have "update_decay_animations 0 s1 = Inl ValueError" .
    with s1(1,3) show ?thesis by (simp add: new_task_def)
  qed
  have late: "\<exists>s1 s2 d2. on_click (click_on (2, 0)) 0 (initial_state 5 True) = Inr s1 \<and>
      active_decay_animations s1 =
        [\<lparr>note_key = (2, 0), start_time = 0, duration = 1 / 2,
          decay_end_factor = 1 / 2, line_obj = (2, 0)\<rparr>] \<and>
      update_decay_animations 1 s1 = Inr s2 \<and>
      active_decay_animations s2 = [] \<and>
      map_of (notes_data s2) (2, 0) = Some d2 \<and>
      alpha (line d2) = 0 \<and>
      ydata (line d2) = base_r d2 \<and> hd (ydata (line d2)) = 4 \<and>
      ydata (line d2) \<noteq> map (\<lambda>r. r * (1 - 1 * (1 - 1 / 2))) (base_r d2)"
    apply (rule exI [of _ s1])
    apply (rule exI [of _ s2])
    apply (rule exI [of _ ?d2])
    apply (intro conjI)
    apply (rule s(1))
    apply (rule q1)
    apply (rule s(3))
    apply (rule q2)
    apply (rule s(5))
    apply (rule y(2))
    apply (rule y(1))
    apply (rule h)
    apply (rule ne)
    done
  show ?thesis by (rule conjI [OF init_piano_eq conjI [OF late early]])
qed

text \<open>The amended statement on the piano with auto-decay on, after a click on C3 at time
  0: the tick at 0.25 gives alpha 0.5 and the radii \<open>base_r\<close> times 0.75.\<close>

theorem tick_samples_task_c3:
  "\<exists>s1 d1. on_click (click_on (2, 0)) 0 (initial_state 5 True) = Inr s1 \<and>
     piano_inv s1 \<and> new_task (2, 0) 0 \<in> set (active_decay_animations s1) \<and>
     map_of (notes_data s1) (2, 0) = Some d1 \<and>
     started_by (1 / 4) s1 \<and>
     (\<exists>s2 d2. update_decay_animations (1 / 4) s1 = Inr s2 \<and>
        map_of (notes_data s2) (2, 0) = Some d2 \<and>
        alpha (line d2) = 1 / 2 \<and>
        ydata (line d2) = map (\<lambda>r. r * (3 / 4)) (base_r d2) \<and>
        new_task (2, 0) 0 \<in> set (active_decay_animations s2))"
proof -
  have k: "(2, 0) \<in> set (note_keys 5)" by (rule c3_key)
  let ?d1 = "(note_of (2, 0))\<lparr>line := (line (note_of (2, 0)))\<lparr>ydata := base_r (note_of (2, 0)), alpha := 1, visible := True\<rparr>,
               highlighted := True\<rparr>"
  from first_click [OF _ k, of 0 True] obtain s1 where
    s1: "on_click (click_on (2, 0)) 0 (initial_state 5 True) = Inr s1" "piano_inv s1"
      "map_of (notes_data s1) (2, 0) = Some ?d1"
      "active_decay_animations s1 = [new_task (2, 0) 0]"
    by auto
  have tin: "new_task (2, 0) 0 \<in> set (active_decay_animations s1)" by (simp add: s1(4))
  have nk: "note_key (new_task (2, 0) 0) = (2, 0)" by (simp add: new_task_def)
  have st: "started_by (1 / 4) s1" by (simp add: started_by_def s1(4) new_task_def)
  let ?t = "new_task (2, 0) 0"
  let ?t = "new_task (2, 0) 0"
  have d1: "map_of (notes_data s1) (note_key ?t) = Some ?d1" by (simp only: nk s1(3))
  from tick_samples_task [OF s1(2) tin d1 st]
  obtain s2 where "\<exists>d'. update_decay_animations (1 / 4) s1 = Inr s2 \<and>
           map_of (notes_data s2) (note_key ?t) = Some d' \<and>
           (let progress = max 0 (min 1 ((1 / 4 - start_time ?t) / duration ?t)) in
            if 1 / 4 - start_time ?t < duration ?t
            then alpha (line d') = 1 - progress \<and>
                 ydata (line d') =
                   map (\<lambda>r. r * (1 - progress * (1 - decay_end_factor ?t))) (base_r d') \<and>
                 visible (line d') \<and> highlighted d' = highlighted ?d1 \<and>
                 ?t \<in> set (active_decay_animations s2)
            else progress = 1 \<and> alpha (line d') = 0 \<and> \<not> visible (line d') \<and>
                 ydata (line d') = ydata (line ?d1) \<and> \<not> highlighted d' \<and>
                 ?t \<notin> set (active_decay_animations s2))" ..
  then obtain d2 where all: "update_decay_animations (1 / 4) s1 = Inr s2 \<and>
           map_of (notes_data s2) (note_key ?t) = Some d2 \<and>
           (let progress = max 0 (min 1 ((1 / 4 - start_time ?t) / duration ?t)) in
            if 1 / 4 - start_time ?t < duration ?t
            then alpha (line d2) = 1 - progress \<and>
                 ydata (line d2) =
                   map (\<lambda>r. r * (1 - progress * (1 - decay_end_factor ?t))) (base_r d2) \<and>
                 visible (line d2) \<and> highlighted d2 = highlighted ?d1 \<and>
                 ?t \<in> set (active_decay_animations s2)
            else progress = 1 \<and> alpha (line d2) = 0 \<and> \<not> visible (line d2) \<and>
                 ydata (line d2) = ydata (line ?d1) \<and> \<not> highlighted d2 \<and>
                 ?t \<notin> set (active_decay_animations s2))" ..
  note u = all [THEN conjunct1] all [THEN conjunct2, THEN conjunct1]
  note body = all [THEN conjunct2, THEN conjunct2]
  have c: "1 / 4 - start_time ?t < duration ?t" by (simp add: new_task_def)
  have pv: "max 0 (min 1 ((1 / 4 - start_time ?t) / duration ?t)) = 1 / 2"
    by (simp add: new_task_def)
  have fv: "1 - (1 / 2) * (1 - decay_end_factor ?t) = 3 / 4" by (simp add: new_task_def)
  from body have b2: "alpha (line d2) = 1 - 1 / 2 \<and>
                 ydata (line d2) =
                   map (\<lambda>r. r * (1 - (1 / 2) * (1 - decay_end_factor ?t))) (base_r d2) \<and>
                 visible (line d2) \<and> highlighted d2 = highlighted ?d1 \<and>
                 ?t \<in> set (active_decay_animations s2)"
    unfolding Let_def pv using c by (simp only: if_True)
  have s2: "update_decay_animations (1 / 4) s1 = Inr s2"
      "map_of (notes_data s2) (2, 0) = Some d2"
      "alpha (line d2) = 1 / 2"
      "ydata (line d2) = map (\<lambda>r. r * (3 / 4)) (base_r d2)"
      "new_task (2, 0) 0 \<in> set (active_decay_animations s2)"
    using u b2 by (simp_all only: nk fv)
  show ?thesis
    apply (rule exI [of _ s1])
    apply (rule exI [of _ ?d1])
    apply (intro conjI)
         apply (rule s1(1))
        apply (rule s1(2))
       apply (rule tin)
      apply (rule s1(3))
     apply (rule st)
    apply (rule exI [of _ s2])
    apply (rule exI [of _ d2])
    using s2 apply simp
    done
qed

section \<open>The active list after a completed fade\<close>

text \<open>
  C2.  On the fresh piano with auto-decay on, C3 is clicked at time 0 and the next tick
  comes at time 1, after the end of the fade.  The tick removes the task, clears the
  highlighted flag and sets alpha 0, but the name stays in \<open>active_notes_list\<close> and the
  status text still lists it.
\<close>

theorem completed_fade_stays_listed:
  "init_piano 5 True = Inr (initial_state 5 True) \<and>
   (\<exists>s1 s2 d2. on_click (click_on (2, 0)) 0 (initial_state 5 True) = Inr s1 \<and>
      active_decay_animations s1 =
        [\<lparr>note_key = (2, 0), start_time = 0, duration = 1 / 2,
          decay_end_factor = 1 / 2, line_obj = (2, 0)\<rparr>] \<and>
      active_notes_list s1 = [''C3''] \<and>
      update_decay_animations 1 s1 = Inr s2 \<and>
      active_decay_animations s2 = [] \<and>
      map_of (notes_data s2) (2, 0) = Some d2 \<and>
      \<not> highlighted d2 \<and> alpha (line d2) = 0 \<and> \<not> visible (line d2) \<and> name d2 = ''C3'' \<and>
      active_notes_list s2 = [''C3''] \<and>
      status_text s2 = ''Active Notes: C3'')"
proof -
  have k: "(2, 0) \<in> set (note_keys 5)" by (rule c3_key)
  let ?d1 = "(note_of (2, 0))\<lparr>line := (line (note_of (2, 0)))\<lparr>ydata := base_r (note_of (2, 0)), alpha := 1, visible := True\<rparr>,
               highlighted := True\<rparr>"
  from click_then_tick [OF _ k, of 0 1] obtain s1 s2 where
    s: "on_click (click_on (2, 0)) 0 (initial_state 5 True) = Inr s1"
      "active_decay_animations s1 = [new_task (2, 0) 0]"
      "active_notes_list s1 = [name (note_of (2, 0))]"
      "update_decay_animations 1 s1 = Inr s2"
      "active_notes_list s2 = [name (note_of (2, 0))]"
      "display_text [name (note_of (2, 0))] = Inr (status_text s2)"
      "active_decay_animations s2 = filter (\<lambda>t. progress 1 t < 1) [new_task (2, 0) 0]"
      "map_of (notes_data s2) (2, 0) = Some (tick_note 1 (new_task (2, 0) 0) ?d1)"
    by auto
  let ?d2 = "tick_note 1 (new_task (2, 0) 0) ?d1"
  have d2: "\<not> highlighted ?d2" "alpha (line ?d2) = 0" "\<not> visible (line ?d2)" "name ?d2 = ''C3''"
    by (simp_all add: tick_note_def progress_done note_of_c3)
  have q1: "active_decay_animations s1 =
        [\<lparr>note_key = (2, 0), start_time = 0, duration = 1 / 2,
          decay_end_factor = 1 / 2, line_obj = (2, 0)\<rparr>]"
    by (simp add: s(2) new_task_def)
  have q2: "active_decay_animations s2 = []" by (simp add: s(7) progress_done)
  have a1: "active_notes_list s1 = [''C3'']" by (simp add: s(3) note_of_c3)
  have a2: "active_notes_list s2 = [''C3'']" by (simp add: s(5) note_of_c3)
  have st: "status_text s2 = ''Active Notes: C3''"
    using s(6) by (simp add: note_of_c3 display_c3)
  have "\<exists>s1 s2 d2. on_click (click_on (2, 0)) 0 (initial_state 5 True) = Inr s1 \<and>
      active_decay_animations s1 =
        [\<lparr>note_key = (2, 0), start_time = 0, duration = 1 / 2,
          decay_end_factor = 1 / 2, line_obj = (2, 0)\<rparr>] \<and>
      active_notes_list s1 = [''C3''] \<and>
      update_decay_animations 1 s1 = Inr s2 \<and>
      active_decay_animations s2 = [] \<and>
      map_of (notes_data s2) (2, 0) = Some d2 \<and>
      \<not> highlighted d2 \<and> alpha (line d2) = 0 \<and> \<not> visible (line d2) \<and> name d2 = ''C3'' \<and>
      active_notes_list s2 = [''C3''] \<and>
      status_text s2 = ''Active Notes: C3''"
    apply (rule exI [of _ s1])
    apply (rule exI [of _ s2])
    apply (rule exI [of _ ?d2])
    apply (intro conjI)
    apply (rule s(1))
    apply (rule q1)
    apply (rule a1)
    apply (rule s(4))
    apply (rule q2)
    apply (rule s(8))
    apply (rule d2(1))
    apply (rule d2(2))
    apply (rule d2(3))
    apply (rule d2(4))
    apply (rule a2)
    apply (rule st)
    done
  then show ?thesis by (rule conjI [OF init_piano_eq])
qed

section \<open>At most one task per key\<close>

text \<open>
  C8.  Take a piano with at most nine rotations (the program builds five) and any
  sequence of clicks, key presses, frame ticks and draw events, each click, key press and
  tick with its clock reading.  If the clock readings never decrease along the sequence,
  the run returns without an exception (a tick that reads a clock before the start of a
  queued task raises \<open>ValueError\<close> in \<open>set_alpha\<close>).  Whatever the clock readings are,
  in every state that the run returns no two tasks of the queue are for the same key:
  every key has at most one task.  In that state, scheduling a task for a key of the
  piano removes the key's task, if there is one, and appends the new task, which is then
  the key's only task.
\<close>

theorem at_most_one_task:
  assumes "n \<le> 9"
  shows "\<exists>s0. init_piano n enable = Inr s0 \<and>
           (clock_ok c evs \<longrightarrow> (\<exists>s. run evs s0 = Inr s)) \<and>
           (\<forall>s. run evs s0 = Inr s \<longrightarrow>
              distinct (map note_key (active_decay_animations s)) \<and>
              (\<forall>k. length (tasks_of s k) \<le> 1) \<and>
              (\<forall>k now. k \<in> set (note_keys n) \<longrightarrow>
                 (\<exists>s'. add_note_to_decay_queue k now s = Inr s' \<and>
                    active_decay_animations s' =
                      filter (\<lambda>t. note_key t \<noteq> k) (active_decay_animations s) @
                      [\<lparr>note_key = k, start_time = now, duration = 1 / 2,
                        decay_end_factor = 1 / 2, line_obj = k\<rparr>] \<and>
                    length (tasks_of s' k) = 1)))"
proof -
  have inv0: "piano_inv (initial_state n enable)" by (rule initial_state_inv [OF assms])
  have returns: "clock_ok c evs \<longrightarrow> (\<exists>s. run evs (initial_state n enable) = Inr s)"
  proof
    have c0: "started_by c (initial_state n enable)"
      by (simp add: started_by_def initial_fields)
    assume "clock_ok c evs"
    from run_inv [OF inv0 c0 this] show "\<exists>s. run evs (initial_state n enable) = Inr s" by blast
  qed
  have after: "distinct (map note_key (active_decay_animations s)) \<and>
     (\<forall>k. length (tasks_of s k) \<le> 1) \<and>
     (\<forall>k now. k \<in> set (note_keys n) \<longrightarrow>
        (\<exists>s'. add_note_to_decay_queue k now s = Inr s' \<and>
           active_decay_animations s' =
             filter (\<lambda>t. note_key t \<noteq> k) (active_decay_animations s) @
             [\<lparr>note_key = k, start_time = now, duration = 1 / 2,
               decay_end_factor = 1 / 2, line_obj = k\<rparr>] \<and>
           length (tasks_of s' k) = 1))"
    if r: "run evs (initial_state n enable) = Inr s" for s
  proof -
  from run_keeps_inv [OF inv0 r] have
    s: "run evs (initial_state n enable) = Inr s" "piano_inv s"
      "static_part s = static_part (initial_state n enable)"
    using r by simp_all
  note p = piano_inv_parts [OF s(2)]
  have one: "\<forall>k. length (tasks_of s k) \<le> 1"
    unfolding tasks_of_def using distinct_key_filter_length [OF p(5)] by simp
  have keys: "fst ` set (notes_data s) = set (note_keys n)"
    using keyset_of_static [OF s(3)] arg_cong [OF initial_keys [of n enable], of set]
    by (simp only: set_map)
  have add: "\<forall>k now. k \<in> set (note_keys n) \<longrightarrow>
              (\<exists>s'. add_note_to_decay_queue k now s = Inr s' \<and>
                 active_decay_animations s' =
                   filter (\<lambda>t. note_key t \<noteq> k) (active_decay_animations s) @
                   [\<lparr>note_key = k, start_time = now, duration = 1 / 2,
                     decay_end_factor = 1 / 2, line_obj = k\<rparr>] \<and>
                 length (tasks_of s' k) = 1)"
  proof (intro allI impI)
    fix k :: note_key and now :: real
    assume "k \<in> set (note_keys n)"
    then have kin: "k \<in> fst ` set (notes_data s)" by (simp only: keys)
    from add_note_inv [OF s(2) kin, of now] obtain s' where
      s': "add_note_to_decay_queue k now s = Inr s'"
        "active_decay_animations s' =
           filter (\<lambda>t. note_key t \<noteq> k) (active_decay_animations s) @ [new_task k now]"
      by blast
    have "tasks_of s' k = [new_task k now]"
      unfolding tasks_of_def s'(2) using tasks_of_after_press [of k "active_decay_animations s" True now]
      by simp
    then have "length (tasks_of s' k) = 1" by simp
    with s' show "\<exists>s'. add_note_to_decay_queue k now s = Inr s' \<and>
                 active_decay_animations s' =
                   filter (\<lambda>t. note_key t \<noteq> k) (active_decay_animations s) @
                   [\<lparr>note_key = k, start_time = now, duration = 1 / 2,
                     decay_end_factor = 1 / 2, line_obj = k\<rparr>] \<and>
                 length (tasks_of s' k) = 1"
      by (simp add: new_task_def)
  qed
    from p(5) one add show ?thesis by (intro conjI)
  qed
  show ?thesis
    apply (rule exI [of _ "initial_state n enable"])
    apply (rule conjI [OF init_piano_eq conjI [OF returns]])
    apply (intro allI impI)
    apply (erule after)
    done
qed

text \<open>The theorem for the five-rotation piano and two clicks on C3 at times 0 and 0.1, a
  tick at 0.2, the key \<open>a\<close> at 0.3 and a click on E3 at 0.4.\<close>

theorem at_most_one_task_c3:
  "(5::nat) \<le> 9 \<and>
   clock_ok 0 [Click (click_on (2, 0)) 0, Click (click_on (2, 0)) (1 / 10), Tick (1 / 5),
           KeyPress ''a'' (3 / 10), Click (click_on (2, 4)) (2 / 5)] \<and>
   (\<exists>s0 s. init_piano 5 True = Inr s0 \<and>
      run [Click (click_on (2, 0)) 0, Click (click_on (2, 0)) (1 / 10), Tick (1 / 5),
           KeyPress ''a'' (3 / 10), Click (click_on (2, 4)) (2 / 5)] s0 = Inr s \<and>
      distinct (map note_key (active_decay_animations s)) \<and>
      length (tasks_of s (2, 0)) \<le> 1)"
proof -
  let ?evs = "[Click (click_on (2, 0)) 0, Click (click_on (2, 0)) (1 / 10), Tick (1 / 5),
           KeyPress ''a'' (3 / 10), Click (click_on (2, 4)) (2 / 5)]"
  have h: "(5::nat) \<le> 9" by simp
  have ck: "clock_ok 0 ?evs" by simp
  from at_most_one_task [OF h, of True 0 ?evs] obtain s0 where
    s0: "init_piano 5 True = Inr s0"
      "clock_ok 0 ?evs \<longrightarrow> (\<exists>s. run ?evs s0 = Inr s)"
      "\<forall>s. run ?evs s0 = Inr s \<longrightarrow>
         distinct (map note_key (active_decay_animations s)) \<and>
         (\<forall>k. length (tasks_of s k) \<le> 1) \<and>
         (\<forall>k now. k \<in> set (note_keys 5) \<longrightarrow>
            (\<exists>s'. add_note_to_decay_queue k now s = Inr s' \<and>
               active_decay_animations s' =
                 filter (\<lambda>t. note_key t \<noteq> k) (active_decay_animations s) @
                 [\<lparr>note_key = k, start_time = now, duration = 1 / 2,
                   decay_end_factor = 1 / 2, line_obj = k\<rparr>] \<and>
               length (tasks_of s' k) = 1))"
    by (elim exE conjE)
  from s0(2) ck obtain s where s: "run ?evs s0 = Inr s" by (elim impE exE)
  note after = s0(3) [THEN spec, THEN mp, OF s]
  from after have d: "distinct (map note_key (active_decay_animations s))" by (rule conjunct1)
  from after have l: "\<forall>k. length (tasks_of s k) \<le> 1"
    by (rule conjunct2 [THEN conjunct1])
  from l have "length (tasks_of s (2, 0)) \<le> 1" by (rule spec)
  with s0(1) s d have "\<exists>s0 s. init_piano 5 True = Inr s0 \<and> run ?evs s0 = Inr s \<and>
      distinct (map note_key (active_decay_animations s)) \<and>
      length (tasks_of s (2, 0)) \<le> 1"
    by (intro exI conjI)
  with h ck show ?thesis by (intro conjI)
qed

section \<open>The space bar with auto-decay disabled\<close>

text \<open>
  C1.  On the fresh piano with auto-decay disabled, C3 and then E3 are clicked: both are
  highlighted, the active list is \<open>[C3, E3]\<close> and the queue is empty.  Pressing the
  space bar then returns the same state: the list is not cleared and no task is
  scheduled.
\<close>

theorem space_bar_releases_nothing:
  "init_piano 5 False = Inr (initial_state 5 False) \<and>
   (\<exists>s d1 d2. run [Click (click_on (2, 0)) 0, Click (click_on (2, 4)) 1]
                 (initial_state 5 False) = Inr s \<and>
      \<not> enable_animation s \<and>
      map_of (notes_data s) (2, 0) = Some d1 \<and> highlighted d1 \<and> alpha (line d1) = 1 \<and>
      map_of (notes_data s) (2, 4) = Some d2 \<and> highlighted d2 \<and> alpha (line d2) = 1 \<and>
      active_notes_list s = [''C3'', ''E3''] \<and>
      active_decay_animations s = [] \<and>
      on_key_press '' '' 2 s = Inr s)"
proof -
  have inv0: "piano_inv (initial_state 5 False)" by (rule initial_state_inv) simp
  have k1: "(2, 0) \<in> set (map fst (notes_data (initial_state 5 False)))"
    by (simp only: initial_keys c3_key)
  have d01: "map_of (notes_data (initial_state 5 False)) (2, 0) = Some (note_of (2, 0))"
    by (simp add: initial_notes)
  have f1: "name (note_of (2, 0)) \<notin> set (active_notes_list (initial_state 5 False))"
    by (simp add: initial_fields)
  have off0: "\<not> enable_animation (initial_state 5 False)" by (simp add: initial_fields)
  from click_other_key [OF inv0 k1 d01 note_of_idle(1) f1 off0, of 0] obtain s1 where
    s1: "on_click (click_on (2, 0)) 0 (initial_state 5 False) = Inr s1" "piano_inv s1"
      "\<not> enable_animation s1"
      "\<forall>k'. k' \<noteq> (2, 0) \<longrightarrow> map_of (notes_data s1) k' = map_of (notes_data (initial_state 5 False)) k'"
      "map_of (notes_data s1) (2, 0) =
       Some ((note_of (2, 0))\<lparr>line := (line (note_of (2, 0)))\<lparr>ydata := base_r (note_of (2, 0)), alpha := 1, visible := True\<rparr>,
               highlighted := True\<rparr>)"
      "active_notes_list s1 = active_notes_list (initial_state 5 False) @ [name (note_of (2, 0))]"
      "active_decay_animations s1 =
         filter (\<lambda>t. note_key t \<noteq> (2, 0)) (active_decay_animations (initial_state 5 False))"
    by blast
  have a1: "active_notes_list s1 = [''C3'']" by (simp add: s1(6) initial_fields note_of_c3)
  have q1: "active_decay_animations s1 = []" by (simp add: s1(7) initial_fields)
  from spec [OF s1(4), of "(2, 4)"]
  have d12: "map_of (notes_data s1) (2, 4) = Some (note_of (2, 4))" by (simp add: initial_notes)
  then have k2: "(2, 4) \<in> set (map fst (notes_data s1))"
    using map_of_Some_key [of "notes_data s1" "(2, 4)"] by simp
  have f2: "name (note_of (2, 4)) \<notin> set (active_notes_list s1)" by (simp add: a1 note_of_c3)
  from click_other_key [OF s1(2) k2 d12 note_of_idle(1) f2 s1(3), of 1] obtain s2 where
    s2: "on_click (click_on (2, 4)) 1 s1 = Inr s2"
      "\<not> enable_animation s2"
      "\<forall>k'. k' \<noteq> (2, 4) \<longrightarrow> map_of (notes_data s2) k' = map_of (notes_data s1) k'"
      "map_of (notes_data s2) (2, 4) =
       Some ((note_of (2, 4))\<lparr>line := (line (note_of (2, 4)))\<lparr>ydata := base_r (note_of (2, 4)), alpha := 1, visible := True\<rparr>,
               highlighted := True\<rparr>)"
      "active_notes_list s2 = active_notes_list s1 @ [name (note_of (2, 4))]"
      "active_decay_animations s2 = filter (\<lambda>t. note_key t \<noteq> (2, 4)) (active_decay_animations s1)"
    by blast
  let ?d1 = "(note_of (2, 0))\<lparr>line := (line (note_of (2, 0)))\<lparr>ydata := base_r (note_of (2, 0)), alpha := 1, visible := True\<rparr>,
               highlighted := True\<rparr>"
  let ?d2 = "(note_of (2, 4))\<lparr>line := (line (note_of (2, 4)))\<lparr>ydata := base_r (note_of (2, 4)), alpha := 1, visible := True\<rparr>,
               highlighted := True\<rparr>"
  from spec [OF s2(3), of "(2, 0)"] s1(5)
  have e1: "map_of (notes_data s2) (2, 0) = Some ?d1" by simp
  have a2: "active_notes_list s2 = [''C3'', ''E3'']" by (simp add: s2(5) a1 note_of_c3)
  have q2: "active_decay_animations s2 = []" by (simp add: s2(6) q1)
  have r: "run [Click (click_on (2, 0)) 0, Click (click_on (2, 4)) 1]
                 (initial_state 5 False) = Inr s2"
    by (simp add: s1(1) s2(1))
  have "\<exists>s d1 d2. run [Click (click_on (2, 0)) 0, Click (click_on (2, 4)) 1]
                 (initial_state 5 False) = Inr s \<and>
      \<not> enable_animation s \<and>
      map_of (notes_data s) (2, 0) = Some d1 \<and> highlighted d1 \<and> alpha (line d1) = 1 \<and>
      map_of (notes_data s) (2, 4) = Some d2 \<and> highlighted d2 \<and> alpha (line d2) = 1 \<and>
      active_notes_list s = [''C3'', ''E3''] \<and>
      active_decay_animations s = [] \<and>
      on_key_press '' '' 2 s = Inr s"
    apply (rule exI [of _ s2])
    apply (rule exI [of _ ?d1])
    apply (rule exI [of _ ?d2])
    using r s2(2) e1 s2(4) a2 q2 by (simp add: space_does_nothing)
  then show ?thesis by (rule conjI [OF init_piano_eq])
qed

section \<open>The status text for a sharp and its natural\<close>

text \<open>
  C5.  On the fresh piano with auto-decay disabled, C#3 is clicked and then C3.  The
  active list is \<open>[C#3, C3]\<close>.  Both names get the same sort key, that of the letter C in
  octave 3, because the key strips the sharp sign before it looks the name up; the stable
  sort keeps the click order and the status text shows C#3 before C3.
\<close>

theorem status_display_sharp_before_natural:
  "init_piano 5 False = Inr (initial_state 5 False) \<and>
   (\<exists>s. run [Click (click_on (2, 1)) 0, Click (click_on (2, 0)) 1]
            (initial_state 5 False) = Inr s \<and>
      active_notes_list s = [''C#3'', ''C3''] \<and>
      note_sort_key ''C#3'' = Inr (51, 0) \<and> note_sort_key ''C3'' = Inr (51, 0) \<and>
      display_text [''C#3'', ''C3''] = Inr ''Active Notes: C#3, C3'' \<and>
      status_text s = ''Active Notes: C#3, C3'')"
proof -
  have inv0: "piano_inv (initial_state 5 False)" by (rule initial_state_inv) simp
  have k1: "(2, 1) \<in> set (map fst (notes_data (initial_state 5 False)))"
    by (simp add: initial_keys set_note_keys)
  have d01: "map_of (notes_data (initial_state 5 False)) (2, 1) = Some (note_of (2, 1))"
    by (simp add: initial_notes)
  have f1: "name (note_of (2, 1)) \<notin> set (active_notes_list (initial_state 5 False))"
    by (simp add: initial_fields)
  have off0: "\<not> enable_animation (initial_state 5 False)" by (simp add: initial_fields)
  from click_other_key [OF inv0 k1 d01 note_of_idle(1) f1 off0, of 0] obtain s1 where
    s1: "on_click (click_on (2, 1)) 0 (initial_state 5 False) = Inr s1" "piano_inv s1"
      "\<not> enable_animation s1"
      "\<forall>k'. k' \<noteq> (2, 1) \<longrightarrow> map_of (notes_data s1) k' = map_of (notes_data (initial_state 5 False)) k'"
      "active_notes_list s1 = active_notes_list (initial_state 5 False) @ [name (note_of (2, 1))]"
    by blast
  have a1: "active_notes_list s1 = [''C#3'']"
    by (simp only: s1(5) initial_fields note_of_cs3 append_Nil)
  from spec [OF s1(4), of "(2, 0)"]
  have d12: "map_of (notes_data s1) (2, 0) = Some (note_of (2, 0))" by (simp add: initial_notes)
  then have k2: "(2, 0) \<in> set (map fst (notes_data s1))"
    using map_of_Some_key [of "notes_data s1" "(2, 0)"] by simp
  have f2: "name (note_of (2, 0)) \<notin> set (active_notes_list s1)" by (simp add: a1 note_of_c3)
  from click_other_key [OF s1(2) k2 d12 note_of_idle(1) f2 s1(3), of 1] obtain s2 where
    s2: "on_click (click_on (2, 0)) 1 s1 = Inr s2"
      "active_notes_list s2 = active_notes_list s1 @ [name (note_of (2, 0))]"
      "display_text (active_notes_list s2) = Inr (status_text s2)"
    by blast
  have a2: "active_notes_list s2 = [''C#3'', ''C3'']" by (simp add: s2(2) a1 note_of_c3)
  have dt: "display_text [''C#3'', ''C3''] = Inr ''Active Notes: C#3, C3''"
    by (simp add: display_text_def sorted_notes_def key_cs3 key_c3)
  have st: "status_text s2 = ''Active Notes: C#3, C3''"
    using s2(3) by (simp only: a2 dt sum.inject)
  have r: "run [Click (click_on (2, 1)) 0, Click (click_on (2, 0)) 1]
            (initial_state 5 False) = Inr s2"
    by (simp only: run.simps step.simps s1(1) s2(1) sum.case)
  have "\<exists>s. run [Click (click_on (2, 1)) 0, Click (click_on (2, 0)) 1]
            (initial_state 5 False) = Inr s \<and>
      active_notes_list s = [''C#3'', ''C3''] \<and>
      note_sort_key ''C#3'' = Inr (51, 0) \<and> note_sort_key ''C3'' = Inr (51, 0) \<and>
      display_text [''C#3'', ''C3''] = Inr ''Active Notes: C#3, C3'' \<and>
      status_text s = ''Active Notes: C#3, C3''"
    apply (rule exI [of _ s2])
    apply (intro conjI)
    apply (rule r)
    apply (rule a2)
    apply (rule key_cs3)
    apply (rule key_c3)
    apply (rule dt)
    apply (rule st)
    done
  then show ?thesis by (rule conjI [OF init_piano_eq])
qed

end
